theory Spec2Isabelle
  imports Main
begin

section \<open>The slice package: a length/capacity view over shared backing storage\<close>

text \<open>
  The source (\<^verbatim>\<open>slice.go\<close>) wraps a pointer to a native Go slice together with a
  length and a capacity. A native Go slice is itself a header (pointer into a backing
  array, length, capacity), and several headers may point into the same backing array.
  The aliasing is what the package is about, so the backing arrays live in an explicit
  store: a list of blocks, a block being the list of the elements of one allocation, and a
  block's address being its position in the store.
\<close>

subsection \<open>Machine integers\<close>

text \<open>
  Go's \<^verbatim>\<open>int\<close> is taken to be 64 bits wide. It is modelled as \<^typ>\<open>int\<close>, with the
  wrap-around written out where the source computes a value that can leave the range:
  the two additions of \<^verbatim>\<open>nextSliceCapacity\<close>, whose overflow the source itself
  handles, and the sum \<^verbatim>\<open>s.Len() + len(elems)\<close> of \<^verbatim>\<open>Append\<close>. Every other
  subtraction and increment of the source runs on values already checked to lie between
  0 and a capacity.
\<close>

definition int64 :: "int \<Rightarrow> bool" where
  "int64 x \<longleftrightarrow> - (2 ^ 63) \<le> x \<and> x < 2 ^ 63"

definition wrap64 :: "int \<Rightarrow> int" where
  "wrap64 x = (x + 2 ^ 63) mod 2 ^ 64 - 2 ^ 63"

text \<open>The conversion \<^verbatim>\<open>uint(x)\<close>.\<close>

definition uint64 :: "int \<Rightarrow> int" where
  "uint64 x = x mod 2 ^ 64"

text \<open>Go's integer division truncates towards zero.\<close>

definition quo :: "int \<Rightarrow> int \<Rightarrow> int" where
  "quo a b = (if (a < 0) = (b < 0) then \<bar>a\<bar> div \<bar>b\<bar> else - (\<bar>a\<bar> div \<bar>b\<bar>))"

subsection \<open>Panics\<close>

text \<open>
  Every panic of the source is a value. The three panics the package raises itself carry
  the source's message: \<^verbatim>\<open>"slice.Make: ..."\<close> is \<open>InvalidSize\<close>,
  \<^verbatim>\<open>"slice.Get: index out of range"\<close> and \<^verbatim>\<open>"slice.Set: index out of range"\<close> are
  \<open>IndexOutOfRange\<close>, and \<^verbatim>\<open>"slice.Sliced: ..."\<close> is \<open>InvalidRange\<close>. The others are
  raised by the Go runtime: dereferencing the nil \<^verbatim>\<open>array\<close> pointer, the bounds
  checks of the native indexing and slicing, and the size check of \<^verbatim>\<open>make\<close>
  (\<^verbatim>\<open>"makeslice: len out of range"\<close>, \<^verbatim>\<open>"makeslice: cap out of range"\<close>).
\<close>

datatype error =
    InvalidSize string
  | IndexOutOfRange string
  | InvalidRange string
  | NilDereference
  | RuntimeBounds
  | MakesliceOutOfRange string

subsection \<open>The store and native Go slices\<close>

type_synonym 'a store = "'a list list"

record goslice =
  sl_block :: nat
  sl_off :: nat
  sl_len :: nat
  sl_cap :: nat

text \<open>
  What the model needs of the element type \<^verbatim>\<open>T\<close>: its zero value, and the largest
  capacity the runtime's \<^verbatim>\<open>make\<close> allocates for it, which is the runtime's
  \<^verbatim>\<open>maxAlloc\<close> divided by the size of an element.
\<close>

record 'a elem_type =
  zero_value :: 'a
  max_cap :: int

text \<open>
  Go's \<^verbatim>\<open>int\<close> on a 64-bit platform with 48 address bits: eight bytes an element and
  \<^verbatim>\<open>maxAlloc = 1 << 48\<close>.
\<close>

definition int_elem :: "int elem_type" where
  "int_elem = \<lparr>zero_value = 0, max_cap = 2 ^ 45\<rparr>"

text \<open>
  \<^verbatim>\<open>make([]T, length, capacity)\<close>. The runtime's \<^verbatim>\<open>makeslice\<close> panics when the
  capacity is negative or beyond what it allocates, or the length is negative or exceeds
  the capacity; the message names the length when the length alone is already out of
  range, and the capacity otherwise. Else it returns a new block of \<open>capacity\<close> zero
  values at the next free address. Running out of physical memory below that limit is
  not modelled.
\<close>

definition go_make ::
  "'a store \<Rightarrow> int \<Rightarrow> int \<Rightarrow> 'a elem_type \<Rightarrow> error + (goslice \<times> 'a store)" where
  "go_make h len cap T =
     (if cap < 0 \<or> max_cap T < cap \<or> len < 0 \<or> cap < len
      then Inl (MakesliceOutOfRange
                  (if len < 0 \<or> max_cap T < len then ''makeslice: len out of range''
                   else ''makeslice: cap out of range''))
      else Inr (\<lparr>sl_block = length h, sl_off = 0, sl_len = nat len, sl_cap = nat cap\<rparr>,
                h @ [replicate (nat cap) (zero_value T)]))"

text \<open>
  \<^verbatim>\<open>a[i]\<close> read and written: the runtime checks the index against \<^verbatim>\<open>len(a)\<close>.
  \<open>poke h b k v\<close> is the store after cell \<open>k\<close> of block \<open>b\<close> is overwritten with \<open>v\<close>.
  A header comes from \<^verbatim>\<open>make\<close> or from re-slicing a header, so its cells lie inside an
  allocated block; \<open>wf_view\<close> below records this.
\<close>

definition go_load :: "'a store \<Rightarrow> goslice \<Rightarrow> int \<Rightarrow> error + 'a" where
  "go_load h a i =
     (if i < 0 \<or> i \<ge> int (sl_len a) then Inl RuntimeBounds
      else Inr (h ! sl_block a ! (sl_off a + nat i)))"

definition poke :: "'a store \<Rightarrow> nat \<Rightarrow> nat \<Rightarrow> 'a \<Rightarrow> 'a store" where
  "poke h b k v = h[b := (h ! b)[k := v]]"

definition go_store :: "'a store \<Rightarrow> goslice \<Rightarrow> int \<Rightarrow> 'a \<Rightarrow> error + 'a store" where
  "go_store h a i v =
     (if i < 0 \<or> i \<ge> int (sl_len a) then Inl RuntimeBounds
      else Inr (poke h (sl_block a) (sl_off a + nat i) v))"

text \<open>\<^verbatim>\<open>a[low:high:max]\<close>: the runtime checks \<open>0 \<le> low \<le> high \<le> max \<le> cap(a)\<close>.\<close>

definition go_reslice :: "goslice \<Rightarrow> int \<Rightarrow> int \<Rightarrow> int \<Rightarrow> error + goslice" where
  "go_reslice a low high mx =
     (if low < 0 \<or> high < low \<or> mx < high \<or> int (sl_cap a) < mx then Inl RuntimeBounds
      else Inr \<lparr>sl_block = sl_block a, sl_off = sl_off a + nat low,
                sl_len = nat (high - low), sl_cap = nat (mx - low)\<rparr>)"

text \<open>\<^verbatim>\<open>elems[i]\<close> on the variadic argument list.\<close>

definition go_index :: "'a list \<Rightarrow> int \<Rightarrow> error + 'a" where
  "go_index xs i =
     (if i < 0 \<or> i \<ge> int (length xs) then Inl RuntimeBounds else Inr (xs ! nat i))"

subsection \<open>The view\<close>

text \<open>
  \<^verbatim>\<open>type Slice[T any] struct { array *[]T; length int; capacity int }\<close>. The header
  \<^verbatim>\<open>array\<close> points to is written once, when the view is built, and never changed, so
  the pointer is modelled by the header it points to; \<open>None\<close> is the nil pointer of the
  zero-value view.
\<close>

record Slice =
  array :: "goslice option"
  length_f :: int
  capacity :: int

definition nilSlice :: Slice where
  "nilSlice = \<lparr>array = None, length_f = 0, capacity = 0\<rparr>"

definition IsNil :: "Slice \<Rightarrow> bool" where
  "IsNil s \<longleftrightarrow> array s = None"

definition Len :: "Slice \<Rightarrow> int" where
  "Len s = length_f s"

definition Cap :: "Slice \<Rightarrow> int" where
  "Cap s = capacity s"

subsection \<open>Construction\<close>

definition extractMakeIndexes :: "int list \<Rightarrow> string + (int \<times> int)" where
  "extractMakeIndexes sizes =
     (if length sizes = 0 then Inl ''missing size arguments''
      else if length sizes > 2 then Inl ''too many arguments''
      else
        let len = sizes ! 0;
            cap = (if length sizes = 2 then sizes ! 1 else len)
        in if len < 0 then Inl ''negative slice length''
           else if cap < 0 then Inl ''negative slice capacity''
           else if len > cap then Inl ''slice length greater than capacity''
           else Inr (len, cap))"

definition Make ::
  "'a store \<Rightarrow> int list \<Rightarrow> 'a elem_type \<Rightarrow> error + (Slice \<times> 'a store)" where
  "Make h sizes T =
     (case extractMakeIndexes sizes of
        Inl err \<Rightarrow> Inl (InvalidSize (''slice.Make: '' @ err))
      | Inr (len, cap) \<Rightarrow>
          (case go_make h len cap T of
             Inl e \<Rightarrow> Inl e
           | Inr (a, h') \<Rightarrow> Inr (\<lparr>array = Some a, length_f = len, capacity = cap\<rparr>, h')))"

subsection \<open>Indexed access\<close>

definition Get :: "'a store \<Rightarrow> Slice \<Rightarrow> int \<Rightarrow> error + 'a" where
  "Get h s idx =
     (if idx < 0 \<or> idx \<ge> Len s then Inl (IndexOutOfRange ''slice.Get: index out of range'')
      else case array s of
             None \<Rightarrow> Inl NilDereference
           | Some a \<Rightarrow> go_load h a idx)"

text \<open>
  \<^verbatim>\<open>if idx < 0 || idx >= len(*s.array)\<close>: the left operand is tested first, and only
  when it is false is the pointer dereferenced.
\<close>

definition Set :: "'a store \<Rightarrow> Slice \<Rightarrow> int \<Rightarrow> 'a \<Rightarrow> error + 'a store" where
  "Set h s idx val =
     (if idx < 0 then Inl (IndexOutOfRange ''slice.Set: index out of range'')
      else case array s of
             None \<Rightarrow> Inl NilDereference
           | Some a \<Rightarrow>
               if idx \<ge> int (sl_len a)
               then Inl (IndexOutOfRange ''slice.Set: index out of range'')
               else go_store h a idx val)"

text \<open>
  \<^verbatim>\<open>New\<close>: \<^verbatim>\<open>Make(len(elems))\<close>, then \<^verbatim>\<open>s.Set(i, elems[i])\<close> for
  \<open>i = 0, ..., len(elems) - 1\<close>.
\<close>

function New_loop :: "'a store \<Rightarrow> Slice \<Rightarrow> 'a list \<Rightarrow> int \<Rightarrow> error + 'a store" where
  "New_loop h s elems i =
     (if i < int (length elems) then
        (case go_index elems i of
           Inl e \<Rightarrow> Inl e
         | Inr x \<Rightarrow>
             (case Set h s i x of
                Inl e \<Rightarrow> Inl e
              | Inr h' \<Rightarrow> New_loop h' s elems (i + 1)))
      else Inr h)"
  by pat_completeness auto
termination
  by (relation "measure (\<lambda>(h, s, elems, i). nat (int (length elems) - i))") auto

definition New ::
  "'a store \<Rightarrow> 'a list \<Rightarrow> 'a elem_type \<Rightarrow> error + (Slice \<times> 'a store)" where
  "New h elems T =
     (case Make h [int (length elems)] T of
        Inl e \<Rightarrow> Inl e
      | Inr (s, h') \<Rightarrow>
          (case New_loop h' s elems 0 of
             Inl e \<Rightarrow> Inl e
           | Inr h'' \<Rightarrow> Inr (s, h'')))"

subsection \<open>Sub-views\<close>

definition extractSlicedIndexes :: "Slice \<Rightarrow> int list \<Rightarrow> string + (int \<times> int \<times> int)" where
  "extractSlicedIndexes s indexes =
     (if length indexes < 2 \<or> length indexes > 3 then Inl ''invalid count of indexes''
      else
        let low = indexes ! 0;
            high = indexes ! 1
        in if low < 0 \<or> high < 0 \<or> low > high \<or> high > Cap s
           then Inl ''index out of bound''
           else
             let newCap = (if length indexes = 3 then indexes ! 2 else Cap s)
             in if newCap < high \<or> newCap > Cap s then Inl ''index out of bound''
                else Inr (low, high, newCap))"

text \<open>
  \<^verbatim>\<open>Sliced\<close> reads no element and writes none: it builds a new header over the same
  block, so it needs no store.
\<close>

definition Sliced :: "Slice \<Rightarrow> int list \<Rightarrow> error + Slice" where
  "Sliced s indexes =
     (case extractSlicedIndexes s indexes of
        Inl err \<Rightarrow> Inl (InvalidRange (''slice.Sliced: '' @ err))
      | Inr (low, high, newCap) \<Rightarrow>
          (case array s of
             None \<Rightarrow> Inl NilDereference
           | Some a \<Rightarrow>
               (case go_reslice a low high newCap of
                  Inl e \<Rightarrow> Inl e
                | Inr a' \<Rightarrow>
                    Inr \<lparr>array = Some a', length_f = high - low, capacity = newCap - low\<rparr>)))"

subsection \<open>Growth\<close>

definition threshold :: int where
  "threshold = 1024"

text \<open>One round of the loop body \<^verbatim>\<open>newCap += newCap / 4\<close>.\<close>

definition growStep :: "int \<Rightarrow> int" where
  "growStep newCap = wrap64 (newCap + quo newCap 4)"

text \<open>
  The loop \<^verbatim>\<open>for { newCap += newCap / 4; if uint(newCap) >= uint(newLen) { break } }\<close>
  has no bound of its own, so not leaving it is the value \<open>None\<close>.
\<close>

partial_function (option) growLoop :: "int \<Rightarrow> int \<Rightarrow> int option" where
  "growLoop newCap newLen =
     (if uint64 (growStep newCap) \<ge> uint64 newLen then Some (growStep newCap)
      else growLoop (growStep newCap) newLen)"

declare growLoop.simps [code]

definition nextSliceCapacity :: "int \<Rightarrow> int \<Rightarrow> int option" where
  "nextSliceCapacity newLen oldCap =
     (let doubleCap = wrap64 (oldCap + oldCap)
      in if newLen > doubleCap then Some newLen
         else if oldCap < threshold then Some doubleCap
         else (case growLoop oldCap newLen of
                 None \<Rightarrow> None
               | Some newCap \<Rightarrow> Some (if newCap \<le> 0 then newLen else newCap)))"

function growSlice_loop :: "'a store \<Rightarrow> Slice \<Rightarrow> Slice \<Rightarrow> int \<Rightarrow> error + 'a store" where
  "growSlice_loop h newS s i =
     (if i < Len s then
        (case Get h s i of
           Inl e \<Rightarrow> Inl e
         | Inr x \<Rightarrow>
             (case Set h newS i x of
                Inl e \<Rightarrow> Inl e
              | Inr h' \<Rightarrow> growSlice_loop h' newS s (i + 1)))
      else Inr h)"
  by pat_completeness auto
termination
  by (relation "measure (\<lambda>(h, newS, s, i). nat (Len s - i))") auto

definition growSlice ::
  "'a store \<Rightarrow> Slice \<Rightarrow> int \<Rightarrow> 'a elem_type \<Rightarrow> (error + (Slice \<times> 'a store)) option" where
  "growSlice h s newLen T =
     (case nextSliceCapacity newLen (Cap s) of
        None \<Rightarrow> None
      | Some newCap \<Rightarrow>
          Some (case Make h [newLen, newCap] T of
                  Inl e \<Rightarrow> Inl e
                | Inr (newS, h') \<Rightarrow>
                    (case growSlice_loop h' newS s 0 of
                       Inl e \<Rightarrow> Inl e
                     | Inr h'' \<Rightarrow> Inr (newS, h''))))"

subsection \<open>Append\<close>

function Append_loop ::
  "'a store \<Rightarrow> Slice \<Rightarrow> 'a list \<Rightarrow> int \<Rightarrow> int \<Rightarrow> int \<Rightarrow> error + 'a store" where
  "Append_loop h res elems sLen resLen i =
     (if i < resLen then
        (case go_index elems (i - sLen) of
           Inl e \<Rightarrow> Inl e
         | Inr x \<Rightarrow>
             (case Set h res i x of
                Inl e \<Rightarrow> Inl e
              | Inr h' \<Rightarrow> Append_loop h' res elems sLen resLen (i + 1)))
      else Inr h)"
  by pat_completeness auto
termination
  by (relation "measure (\<lambda>(h, res, elems, sLen, resLen, i). nat (resLen - i))") auto

text \<open>
  The result is \<open>None\<close> when the growth loop does not return, \<open>Some (Inl e)\<close> on a
  panic, and \<open>Some (Inr (res, h'))\<close> with the returned view and the store after the
  call otherwise.
\<close>

definition Append ::
  "'a store \<Rightarrow> Slice \<Rightarrow> 'a list \<Rightarrow> 'a elem_type \<Rightarrow> (error + (Slice \<times> 'a store)) option" where
  "Append h s elems T =
     (let resLen = wrap64 (Len s + int (length elems))
      in case (if resLen \<le> Cap s
               then Some (case Sliced s [0, resLen] of
                            Inl e \<Rightarrow> Inl e
                          | Inr res \<Rightarrow> Inr (res, h))
               else growSlice h s resLen T) of
           None \<Rightarrow> None
         | Some (Inl e) \<Rightarrow> Some (Inl e)
         | Some (Inr (res, h')) \<Rightarrow>
             Some (case Append_loop h' res elems (Len s) resLen (Len s) of
                     Inl e \<Rightarrow> Inl e
                   | Inr h'' \<Rightarrow> Inr (res, h'')))"

subsection \<open>Bulk copy\<close>

function Copy_loop :: "'a store \<Rightarrow> Slice \<Rightarrow> Slice \<Rightarrow> int \<Rightarrow> int \<Rightarrow> error + 'a store" where
  "Copy_loop h dst src minLen i =
     (if i < minLen then
        (case Get h src i of
           Inl e \<Rightarrow> Inl e
         | Inr x \<Rightarrow>
             (case Set h dst i x of
                Inl e \<Rightarrow> Inl e
              | Inr h' \<Rightarrow> Copy_loop h' dst src minLen (i + 1)))
      else Inr h)"
  by pat_completeness auto
termination
  by (relation "measure (\<lambda>(h, dst, src, minLen, i). nat (minLen - i))") auto

definition Copy :: "'a store \<Rightarrow> Slice \<Rightarrow> Slice \<Rightarrow> error + (int \<times> 'a store)" where
  "Copy h dst src =
     (let minLen = (if Len src < Len dst then Len src else Len dst)
      in case Copy_loop h dst src minLen 0 of
           Inl e \<Rightarrow> Inl e
         | Inr h' \<Rightarrow> Inr (minLen, h'))"

subsection \<open>Views the package can build\<close>

text \<open>
  The fields of \<^verbatim>\<open>Slice\<close> are unexported, so a caller holds only the zero value and
  what \<^verbatim>\<open>Make\<close>, \<^verbatim>\<open>New\<close>, \<^verbatim>\<open>Sliced\<close> and \<^verbatim>\<open>Append\<close> return. For all of
  them the two integer fields repeat the length and capacity of the native header, the
  header lies inside an allocated block, and the capacity is a 64-bit value.
\<close>

definition wf_view :: "'a store \<Rightarrow> Slice \<Rightarrow> bool" where
  "wf_view h s =
     (case array s of
        None \<Rightarrow> length_f s = 0 \<and> capacity s = 0
      | Some a \<Rightarrow>
          length_f s = int (sl_len a) \<and> capacity s = int (sl_cap a)
          \<and> sl_len a \<le> sl_cap a \<and> capacity s < 2 ^ 63
          \<and> sl_block a < length h \<and> sl_off a + sl_cap a \<le> length (h ! sl_block a))"

text \<open>
  The view with a header at offset \<open>off\<close> of block \<open>b\<close>, written out: the shape
  of every non-nil view the package returns.
\<close>

definition mkview :: "nat \<Rightarrow> nat \<Rightarrow> nat \<Rightarrow> nat \<Rightarrow> Slice" where
  "mkview b off len cap =
     \<lparr>array = Some \<lparr>sl_block = b, sl_off = off, sl_len = len, sl_cap = cap\<rparr>,
      length_f = int len, capacity = int cap\<rparr>"

text \<open>
  What the specification asks of \<open>Copy\<close>: the store after the first \<open>n\<close> cells of
  the source header are read, all of them before any cell is written, and then written to
  the first \<open>n\<close> cells of the destination header.
\<close>

definition snapshot_copy :: "'a store \<Rightarrow> goslice \<Rightarrow> goslice \<Rightarrow> nat \<Rightarrow> 'a store" where
  "snapshot_copy h ad as n =
     h[sl_block ad :=
         take (sl_off ad) (h ! sl_block ad)
         @ take n (drop (sl_off as) (h ! sl_block as))
         @ drop (sl_off ad + n) (h ! sl_block ad)]"

text \<open>
  The store after \<open>m\<close> single-cell copies from index \<open>i\<close> upwards: cell \<open>i\<close> of the
  source header is read in the store as the copies before it left it, and written to
  cell \<open>i\<close> of the destination header; then the same from \<open>i + 1\<close>.
\<close>

fun forward_copy :: "'a store \<Rightarrow> goslice \<Rightarrow> goslice \<Rightarrow> nat \<Rightarrow> nat \<Rightarrow> 'a store" where
  "forward_copy h ad as i 0 = h"
| "forward_copy h ad as i (Suc m) =
     forward_copy
       (poke h (sl_block ad) (sl_off ad + i) (h ! sl_block as ! (sl_off as + i)))
       ad as (Suc i) m"

text \<open>Two stores with the same blocks of the same lengths.\<close>

definition same_shape :: "'a store \<Rightarrow> 'a store \<Rightarrow> bool" where
  "same_shape h h' \<longleftrightarrow> length h' = length h \<and> (\<forall>b. length (h' ! b) = length (h ! b))"

section \<open>Properties\<close>

subsection \<open>The store\<close>

lemma int_elem_sel [simp]: "zero_value int_elem = 0" "max_cap int_elem = 2 ^ 45"
  by (simp_all add: int_elem_def)

lemma length_poke: "length (poke h b k v) = length h"
  by (simp add: poke_def)

lemma length_poke_block: "length (poke h b k v ! b') = length (h ! b')"
  by (cases "b < length h") (auto simp: poke_def nth_list_update list_update_beyond)

lemma poke_nth:
  "b < length h \<Longrightarrow> k < length (h ! b) \<Longrightarrow>
   poke h b k v ! b' ! k' = (if b' = b \<and> k' = k then v else h ! b' ! k')"
  by (auto simp: poke_def nth_list_update)


lemma wf_view_poke: "wf_view h s \<Longrightarrow> wf_view (poke h b k v) s"
  by (simp add: wf_view_def length_poke length_poke_block split: option.splits)

lemma wf_view_alloc: "wf_view h s \<Longrightarrow> wf_view (h @ [blk]) s"
  by (auto simp: wf_view_def nth_append split: option.splits)

lemma Get_wf:
  "wf_view h s \<Longrightarrow> array s = Some a \<Longrightarrow> 0 \<le> i \<Longrightarrow> i < Len s \<Longrightarrow>
   Get h s i = Inr (h ! sl_block a ! (sl_off a + nat i))"
  by (simp add: Get_def go_load_def wf_view_def Len_def)

lemma Get_outside:
  "i < 0 \<or> Len s \<le> i \<Longrightarrow> Get h s i = Inl (IndexOutOfRange ''slice.Get: index out of range'')"
  by (auto simp: Get_def)

lemma Set_wf:
  "wf_view h s \<Longrightarrow> array s = Some a \<Longrightarrow> 0 \<le> i \<Longrightarrow> i < Len s \<Longrightarrow>
   Set h s i x = Inr (poke h (sl_block a) (sl_off a + nat i) x)"
  by (simp add: Set_def go_store_def wf_view_def Len_def)

lemma Set_Inr_poke:
  "Set h s i x = Inr h' \<Longrightarrow>
   \<exists>a. array s = Some a \<and> 0 \<le> i \<and> i < int (sl_len a)
       \<and> h' = poke h (sl_block a) (sl_off a + nat i) x"
  by (auto simp: Set_def go_store_def split: if_splits option.splits)

lemma Set_IndexOutOfRange_iff:
  "wf_view h s \<Longrightarrow> \<not> IsNil s \<Longrightarrow>
   (\<exists>msg. Set h s i x = Inl (IndexOutOfRange msg)) \<longleftrightarrow> i < 0 \<or> Len s \<le> i"
  by (auto simp: Set_def go_store_def wf_view_def Len_def IsNil_def split: option.splits)

subsection \<open>Construction\<close>

lemma extractMakeIndexes_Inl_iff:
  "(\<exists>err. extractMakeIndexes sizes = Inl err) \<longleftrightarrow>
     length sizes = 0 \<or> length sizes > 2 \<or> sizes ! 0 < 0
     \<or> (if length sizes = 2 then sizes ! 1 else sizes ! 0) < 0
     \<or> sizes ! 0 > (if length sizes = 2 then sizes ! 1 else sizes ! 0)"
  by (simp add: extractMakeIndexes_def Let_def)

lemma extractMakeIndexes_Inr:
  "extractMakeIndexes sizes = Inr (len, cap) \<Longrightarrow> 0 \<le> len \<and> len \<le> cap"
  by (simp add: extractMakeIndexes_def Let_def split: if_splits)

lemma Make_InvalidSize_iff:
  "(\<exists>msg. Make h sizes T = Inl (InvalidSize msg)) \<longleftrightarrow>
   (\<exists>err. extractMakeIndexes sizes = Inl err)"
  by (cases "extractMakeIndexes sizes")
     (auto simp: Make_def go_make_def dest: extractMakeIndexes_Inr
           split: sum.splits prod.splits if_splits)

lemma Make_MakesliceOutOfRange_iff:
  "(\<exists>msg. Make h sizes T = Inl (MakesliceOutOfRange msg)) \<longleftrightarrow>
   (\<exists>len cap. extractMakeIndexes sizes = Inr (len, cap) \<and> max_cap T < cap)"
  by (cases "extractMakeIndexes sizes")
     (auto simp: Make_def go_make_def dest: extractMakeIndexes_Inr
           split: sum.splits prod.splits if_splits)

lemma extractMakeIndexes_Inr_iff:
  "extractMakeIndexes sizes = Inr (len, cap) \<longleftrightarrow>
     (sizes = [len] \<and> cap = len \<or> sizes = [len, cap]) \<and> 0 \<le> len \<and> len \<le> cap"
proof (cases sizes)
  case Nil
  then show ?thesis by (simp add: extractMakeIndexes_def)
next
  case (Cons x xs)
  show ?thesis
  proof (cases xs)
    case Nil
    with Cons show ?thesis by (auto simp: extractMakeIndexes_def Let_def)
  next
    case (Cons y ys)
    with \<open>sizes = x # xs\<close> show ?thesis
      by (cases ys) (auto simp: extractMakeIndexes_def Let_def)
  qed
qed

lemma Make_cases:
  "(\<exists>msg. Make h sizes T = Inl (InvalidSize msg))
   \<or> (\<exists>msg. Make h sizes T = Inl (MakesliceOutOfRange msg))
   \<or> (\<exists>v h'. Make h sizes T = Inr (v, h'))"
  by (cases "extractMakeIndexes sizes")
     (auto simp: Make_def go_make_def dest: extractMakeIndexes_Inr
           split: sum.splits prod.splits if_splits)

lemma Make_valid:
  "0 \<le> len \<Longrightarrow> len \<le> cap \<Longrightarrow> cap \<le> max_cap T \<Longrightarrow>
   Make h [len, cap] T =
     Inr (\<lparr>array = Some \<lparr>sl_block = length h, sl_off = 0, sl_len = nat len, sl_cap = nat cap\<rparr>,
           length_f = len, capacity = cap\<rparr>, h @ [replicate (nat cap) (zero_value T)])"
  by (simp add: Make_def extractMakeIndexes_def go_make_def)

lemma Make_beyond_limit:
  "0 \<le> len \<Longrightarrow> len \<le> cap \<Longrightarrow> max_cap T < cap \<Longrightarrow>
   Make h [len, cap] T =
     Inl (MakesliceOutOfRange
            (if max_cap T < len then ''makeslice: len out of range''
             else ''makeslice: cap out of range''))"
  by (simp add: Make_def extractMakeIndexes_def go_make_def)

lemma Make_single: "Make h [len] T = Make h [len, len] T"
  by (simp add: Make_def extractMakeIndexes_def Let_def)

lemma Make_Inr:
  "Make h sizes T = Inr (v, h') \<Longrightarrow>
   \<exists>len cap. 0 \<le> len \<and> len \<le> cap \<and> cap \<le> max_cap T
     \<and> v = \<lparr>array = Some \<lparr>sl_block = length h, sl_off = 0, sl_len = nat len, sl_cap = nat cap\<rparr>,
             length_f = len, capacity = cap\<rparr>
     \<and> h' = h @ [replicate (nat cap) (zero_value T)]"
  by (cases "extractMakeIndexes sizes")
     (auto simp: Make_def go_make_def dest: extractMakeIndexes_Inr
           split: sum.splits prod.splits if_splits)

lemma Make_mkview:
  "0 \<le> len \<Longrightarrow> len \<le> cap \<Longrightarrow> cap \<le> max_cap T \<Longrightarrow>
   Make h [len, cap] T =
     Inr (mkview (length h) 0 (nat len) (nat cap), h @ [replicate (nat cap) (zero_value T)])"
  by (simp add: Make_valid mkview_def)

lemma fresh_view_reads_zero:
  assumes "0 \<le> i" "i < len" "len \<le> cap"
  shows "Get (h @ [replicate (nat cap) z]) (mkview (length h) 0 (nat len) (nat cap)) i = Inr z"
  using assms by (simp add: Get_def go_load_def mkview_def Len_def)

lemma fresh_view_write_read:
  assumes "0 \<le> i" "i < len" "len \<le> cap"
  shows "\<exists>h''. Set (h @ [replicate (nat cap) z]) (mkview (length h) 0 (nat len) (nat cap)) i x
                 = Inr h''
           \<and> Get h'' (mkview (length h) 0 (nat len) (nat cap)) i = Inr x"
  using assms
  by (simp add: Set_def go_store_def Get_def go_load_def mkview_def Len_def poke_def)

text \<open>
  C9 (amended). Construction panics with \<open>InvalidSize\<close> exactly when no size is given,
  more than two are given, the length is negative, the capacity (the length when only one
  size is given) is negative, or the length exceeds the capacity. With sizes that pass
  this check it fails in one case only, inside the native \<^verbatim>\<open>make\<close>, when the capacity
  is more than the runtime allocates for the element type; that panic is the runtime's,
  not \<open>InvalidSize\<close>. For \<open>0 \<le> len \<le> cap\<close> within that limit, \<open>Make(len, cap)\<close> returns a
  non-nil view of length \<open>len\<close> and capacity \<open>cap\<close> whose header, of the same length and
  capacity, starts at offset 0 of a block at a new address holding exactly \<open>cap\<close> zero
  values: every index below \<open>len\<close> reads the zero value and can be written and read back.
  \<open>Make(len)\<close> is \<open>Make(len, len)\<close>.
\<close>

theorem Make_InvalidSize_iff_and_view_within_limit:
  "((\<exists>msg. Make h sizes T = Inl (InvalidSize msg)) \<longleftrightarrow>
      length sizes = 0 \<or> length sizes > 2 \<or> sizes ! 0 < 0
      \<or> (if length sizes = 2 then sizes ! 1 else sizes ! 0) < 0
      \<or> sizes ! 0 > (if length sizes = 2 then sizes ! 1 else sizes ! 0))
   \<and> ((\<exists>msg. Make h sizes T = Inl (MakesliceOutOfRange msg)) \<longleftrightarrow>
        (\<exists>l c. (sizes = [l] \<and> c = l \<or> sizes = [l, c]) \<and> 0 \<le> l \<and> l \<le> c \<and> max_cap T < c))
   \<and> ((\<exists>msg. Make h sizes T = Inl (InvalidSize msg))
        \<or> (\<exists>msg. Make h sizes T = Inl (MakesliceOutOfRange msg))
        \<or> (\<exists>v h'. Make h sizes T = Inr (v, h')))
   \<and> (0 \<le> len \<and> len \<le> cap \<and> cap \<le> max_cap T \<longrightarrow>
        (\<exists>v h'. Make h [len, cap] T = Inr (v, h')
           \<and> v = mkview (length h) 0 (nat len) (nat cap)
           \<and> h' = h @ [replicate (nat cap) (zero_value T)]
           \<and> Len v = len \<and> Cap v = cap \<and> \<not> IsNil v
           \<and> array v = Some \<lparr>sl_block = length h, sl_off = 0,
                               sl_len = nat len, sl_cap = nat cap\<rparr>
           \<and> h' ! length h = replicate (nat cap) (zero_value T)
           \<and> length (h' ! length h) = nat cap
           \<and> (\<forall>i. 0 \<le> i \<and> i < len \<longrightarrow> Get h' v i = Inr (zero_value T))
           \<and> (\<forall>i x. 0 \<le> i \<and> i < len \<longrightarrow>
                 (\<exists>h''. Set h' v i x = Inr h'' \<and> Get h'' v i = Inr x))))
   \<and> (0 \<le> len \<and> len \<le> cap \<and> max_cap T < cap \<longrightarrow>
        (\<exists>msg. Make h [len, cap] T = Inl (MakesliceOutOfRange msg)))
   \<and> Make h [len] T = Make h [len, len] T"
proof -
  have 1: "(\<exists>msg. Make h sizes T = Inl (InvalidSize msg)) \<longleftrightarrow>
      length sizes = 0 \<or> length sizes > 2 \<or> sizes ! 0 < 0
      \<or> (if length sizes = 2 then sizes ! 1 else sizes ! 0) < 0
      \<or> sizes ! 0 > (if length sizes = 2 then sizes ! 1 else sizes ! 0)"
    using Make_InvalidSize_iff [of h sizes T] extractMakeIndexes_Inl_iff [of sizes] by blast
  have 2: "(\<exists>msg. Make h sizes T = Inl (MakesliceOutOfRange msg)) \<longleftrightarrow>
        (\<exists>l c. (sizes = [l] \<and> c = l \<or> sizes = [l, c]) \<and> 0 \<le> l \<and> l \<le> c \<and> max_cap T < c)"
    unfolding Make_MakesliceOutOfRange_iff extractMakeIndexes_Inr_iff by blast
  have 4: "0 \<le> len \<and> len \<le> cap \<and> cap \<le> max_cap T \<longrightarrow>
        (\<exists>v h'. Make h [len, cap] T = Inr (v, h')
           \<and> v = mkview (length h) 0 (nat len) (nat cap)
           \<and> h' = h @ [replicate (nat cap) (zero_value T)]
           \<and> Len v = len \<and> Cap v = cap \<and> \<not> IsNil v
           \<and> array v = Some \<lparr>sl_block = length h, sl_off = 0,
                               sl_len = nat len, sl_cap = nat cap\<rparr>
           \<and> h' ! length h = replicate (nat cap) (zero_value T)
           \<and> length (h' ! length h) = nat cap
           \<and> (\<forall>i. 0 \<le> i \<and> i < len \<longrightarrow> Get h' v i = Inr (zero_value T))
           \<and> (\<forall>i x. 0 \<le> i \<and> i < len \<longrightarrow>
                 (\<exists>h''. Set h' v i x = Inr h'' \<and> Get h'' v i = Inr x)))"
  proof (intro impI)
    assume a: "0 \<le> len \<and> len \<le> cap \<and> cap \<le> max_cap T"
    let ?v = "mkview (length h) 0 (nat len) (nat cap)"
    let ?h' = "h @ [replicate (nat cap) (zero_value T)]"
    have "Make h [len, cap] T = Inr (?v, ?h')"
      using a by (simp add: Make_mkview)
    moreover have "Len ?v = len" "Cap ?v = cap" "\<not> IsNil ?v"
      "array ?v = Some \<lparr>sl_block = length h, sl_off = 0, sl_len = nat len, sl_cap = nat cap\<rparr>"
      using a by (simp_all add: mkview_def Len_def Cap_def IsNil_def)
    moreover have "?h' ! length h = replicate (nat cap) (zero_value T)"
      "length (?h' ! length h) = nat cap"
      by simp_all
    moreover have "\<forall>i. 0 \<le> i \<and> i < len \<longrightarrow> Get ?h' ?v i = Inr (zero_value T)"
      using a fresh_view_reads_zero [of _ len cap h "zero_value T"] by blast
    moreover have "\<forall>i x. 0 \<le> i \<and> i < len \<longrightarrow>
                 (\<exists>h''. Set ?h' ?v i x = Inr h'' \<and> Get h'' ?v i = Inr x)"
      using a fresh_view_write_read [of _ len cap h "zero_value T"] by blast
    ultimately show "\<exists>v h'. Make h [len, cap] T = Inr (v, h')
           \<and> v = mkview (length h) 0 (nat len) (nat cap)
           \<and> h' = h @ [replicate (nat cap) (zero_value T)]
           \<and> Len v = len \<and> Cap v = cap \<and> \<not> IsNil v
           \<and> array v = Some \<lparr>sl_block = length h, sl_off = 0,
                               sl_len = nat len, sl_cap = nat cap\<rparr>
           \<and> h' ! length h = replicate (nat cap) (zero_value T)
           \<and> length (h' ! length h) = nat cap
           \<and> (\<forall>i. 0 \<le> i \<and> i < len \<longrightarrow> Get h' v i = Inr (zero_value T))
           \<and> (\<forall>i x. 0 \<le> i \<and> i < len \<longrightarrow>
                 (\<exists>h''. Set h' v i x = Inr h'' \<and> Get h'' v i = Inr x))"
      by blast
  qed
  have 5: "0 \<le> len \<and> len \<le> cap \<and> max_cap T < cap \<longrightarrow>
        (\<exists>msg. Make h [len, cap] T = Inl (MakesliceOutOfRange msg))"
    by (simp add: Make_beyond_limit)
  show ?thesis
    using 1 2 Make_cases [of h sizes T] 4 5 Make_single [of h len T]
    by (intro conjI) assumption+
qed

text \<open>
  Without the limit the statement fails: \<open>(0, 1 << 62)\<close> is a valid pair, and
  \<open>Make[int](0, 1 << 62)\<close> passes \<^verbatim>\<open>extractMakeIndexes\<close> and panics in \<^verbatim>\<open>make\<close>.
\<close>

theorem Make_valid_pair_beyond_limit_counterexample:
  "(0::int) \<le> 0 \<and> (0::int) \<le> 2 ^ 62
   \<and> extractMakeIndexes [0, 2 ^ 62] = Inr (0, 2 ^ 62)
   \<and> Make ([]::int list list) [0, 2 ^ 62] int_elem
       = Inl (MakesliceOutOfRange ''makeslice: cap out of range'')"
  by (simp add: Make_def extractMakeIndexes_def go_make_def)

theorem Make_InvalidSize_iff_and_view_within_limit_witness:
  "(0::int) \<le> 2 \<and> (2::int) \<le> 5 \<and> 5 \<le> max_cap int_elem
   \<and> Make [] [2, 5] int_elem = Inr (mkview 0 0 2 5, [[0, 0, 0, 0, 0]])
   \<and> Get [[0, 0, 0, 0, 0::int]] (mkview 0 0 2 5) 1 = Inr 0
   \<and> (\<exists>msg. Make ([]::int list list) [5, 2] int_elem = Inl (InvalidSize msg))
   \<and> (0::int) \<le> 0 \<and> (0::int) \<le> 2 ^ 62 \<and> max_cap int_elem < 2 ^ 62
   \<and> (\<exists>msg. Make ([]::int list list) [0, 2 ^ 62] int_elem = Inl (MakesliceOutOfRange msg))"
proof -
  have a: "(0::int) \<le> 2 \<and> (2::int) \<le> 5 \<and> 5 \<le> max_cap int_elem"
    by simp
  have b: "(0::int) \<le> 0 \<and> (0::int) \<le> 2 ^ 62 \<and> max_cap int_elem < 2 ^ 62"
    by simp
  have r: "[] @ [replicate (nat 5) (zero_value int_elem)] = [[0, 0, 0, 0, 0::int]]"
    "mkview (length ([]::int list list)) 0 (nat 2) (nat 5) = mkview 0 0 2 5"
    by (simp_all add: numeral_eq_Suc)
  from Make_InvalidSize_iff_and_view_within_limit
         [where h = "[]" and sizes = "[5, 2]" and T = int_elem and len = 2 and cap = 5] a
  obtain v h' where v: "Make [] [2, 5] int_elem = Inr (v, h')"
      "v = mkview (length ([]::int list list)) 0 (nat 2) (nat 5)"
      "h' = [] @ [replicate (nat 5) (zero_value int_elem)]"
      "\<forall>i. 0 \<le> i \<and> i < 2 \<longrightarrow> Get h' v i = Inr (zero_value int_elem)"
    by blast
  have 1: "Make [] [2, 5] int_elem = Inr (mkview 0 0 2 5, [[0, 0, 0, 0, 0]])"
    using v(1) unfolding v(2,3) r .
  have 2: "Get [[0, 0, 0, 0, 0::int]] (mkview 0 0 2 5) 1 = Inr 0"
    using v(4) [rule_format, of 1] unfolding v(2,3) r by simp
  have 3: "\<exists>msg. Make ([]::int list list) [5, 2] int_elem = Inl (InvalidSize msg)"
    using Make_InvalidSize_iff_and_view_within_limit
            [where h = "[]::int list list" and sizes = "[5, 2]" and T = int_elem
               and len = 2 and cap = 5]
    by simp
  have 4: "\<exists>msg. Make ([]::int list list) [0, 2 ^ 62] int_elem
                   = Inl (MakesliceOutOfRange msg)"
    using Make_InvalidSize_iff_and_view_within_limit
            [where h = "[]::int list list" and sizes = "[5, 2]" and T = int_elem
               and len = 0 and cap = "2 ^ 62"] b
    by blast
  show ?thesis using a b 1 2 3 4 by blast
qed

subsection \<open>Indexed access\<close>

lemma Set_then_Get:
  assumes "wf_view h v" "array v = Some a" "0 \<le> i" "i < Len v"
  shows "Get (poke h (sl_block a) (sl_off a + nat i) x) v j =
           (if j = i then Inr x else Get h v j)"
proof (cases "0 \<le> j \<and> j < Len v")
  case True
  have wf': "wf_view (poke h (sl_block a) (sl_off a + nat i) x) v"
    using assms(1) by (rule wf_view_poke)
  have b: "sl_block a < length h" and k: "sl_off a + nat i < length (h ! sl_block a)"
    using assms by (auto simp: wf_view_def Len_def)
  have "Get (poke h (sl_block a) (sl_off a + nat i) x) v j =
          Inr (poke h (sl_block a) (sl_off a + nat i) x ! sl_block a ! (sl_off a + nat j))"
    using wf' assms(2) True by (simp add: Get_wf)
  also have "\<dots> = (if j = i then Inr x else Inr (h ! sl_block a ! (sl_off a + nat j)))"
    using b k True assms(3) by (auto simp: poke_nth)
  also have "\<dots> = (if j = i then Inr x else Get h v j)"
    using assms(1,2) True by (simp add: Get_wf)
  finally show ?thesis .
next
  case False
  then show ?thesis using assms(3,4) by (auto simp: Get_outside)
qed

text \<open>
  C1 (amended). The source tests the index against \<^verbatim>\<open>len(*s.array)\<close>, which for every
  view the package builds is the view's length, not its capacity. For every such view with
  a backing buffer, \<open>Set(i, x)\<close> panics with \<open>IndexOutOfRange\<close> exactly when \<open>i < 0\<close> or
  \<open>i \<ge> Len()\<close>; for \<open>0 \<le> i < Len()\<close> it succeeds, the slot at \<open>i\<close> then reads \<open>x\<close>
  and every other slot of the view reads as before.
\<close>

theorem Set_bound_is_length:
  assumes "wf_view h v" and "\<not> IsNil v"
  shows "((\<exists>msg. Set h v i x = Inl (IndexOutOfRange msg)) \<longleftrightarrow> i < 0 \<or> Len v \<le> i)
       \<and> (0 \<le> i \<and> i < Len v \<longrightarrow>
            (\<exists>h'. Set h v i x = Inr h' \<and> wf_view h' v \<and> Get h' v i = Inr x
               \<and> (\<forall>j. j \<noteq> i \<longrightarrow> Get h' v j = Get h v j)))"
proof -
  obtain a where a: "array v = Some a"
    using assms(2) by (auto simp: IsNil_def)
  have "0 \<le> i \<and> i < Len v \<longrightarrow>
            (\<exists>h'. Set h v i x = Inr h' \<and> wf_view h' v \<and> Get h' v i = Inr x
               \<and> (\<forall>j. j \<noteq> i \<longrightarrow> Get h' v j = Get h v j))"
    using assms(1) a by (auto simp: Set_wf Set_then_Get wf_view_poke)
  then show ?thesis
    using Set_IndexOutOfRange_iff [OF assms, of i x] by blast
qed

text \<open>
  With the capacity as the bound the statement fails on \<open>Make(2, 5)\<close>: index 3 lies
  between the length 2 and the capacity 5, and \<open>Set(3, 7)\<close> panics with
  \<open>IndexOutOfRange\<close>.
\<close>

theorem Set_capacity_region_counterexample:
  "Make [] [2, 5] int_elem = Inr (mkview 0 0 2 5, [[0, 0, 0, 0, 0]])
   \<and> Len (mkview 0 0 2 5) = 2 \<and> Cap (mkview 0 0 2 5) = 5
   \<and> Set [[0, 0, 0, 0, 0::int]] (mkview 0 0 2 5) 3 7
       = Inl (IndexOutOfRange ''slice.Set: index out of range'')"
  by (simp add: Make_valid mkview_def Len_def Cap_def Set_def numeral_eq_Suc)

theorem Set_bound_is_length_witness:
  "wf_view [[0, 0, 0, 0, 0::int]] (mkview 0 0 2 5) \<and> \<not> IsNil (mkview 0 0 2 5)
   \<and> (\<exists>h'. Set [[0, 0, 0, 0, 0::int]] (mkview 0 0 2 5) 1 7 = Inr h'
        \<and> Get h' (mkview 0 0 2 5) 1 = Inr 7)
   \<and> (\<exists>msg. Set [[0, 0, 0, 0, 0::int]] (mkview 0 0 2 5) 2 7 = Inl (IndexOutOfRange msg))"
proof -
  have wf: "wf_view [[0, 0, 0, 0, 0::int]] (mkview 0 0 2 5)"
    by (simp add: wf_view_def mkview_def)
  have nn: "\<not> IsNil (mkview 0 0 2 5)"
    by (simp add: IsNil_def mkview_def)
  have len: "Len (mkview 0 0 2 5) = 2"
    by (simp add: Len_def mkview_def)
  show ?thesis
    using wf nn Set_bound_is_length [OF wf nn, of 1 7] Set_bound_is_length [OF wf nn, of 2 7]
    unfolding len by auto
qed

subsection \<open>Sub-views\<close>

lemma extractSlicedIndexes_Inl_iff:
  "(\<exists>err. extractSlicedIndexes s idx = Inl err) \<longleftrightarrow>
     length idx < 2 \<or> length idx > 3 \<or> idx ! 0 < 0 \<or> idx ! 1 < 0 \<or> idx ! 0 > idx ! 1
     \<or> idx ! 1 > Cap s
     \<or> (if length idx = 3 then idx ! 2 else Cap s) < idx ! 1
     \<or> (if length idx = 3 then idx ! 2 else Cap s) > Cap s"
  by (simp add: extractSlicedIndexes_def Let_def)

lemma extractSlicedIndexes_Inr:
  "extractSlicedIndexes s idx = Inr (low, high, newCap) \<Longrightarrow>
   0 \<le> low \<and> low \<le> high \<and> high \<le> newCap \<and> newCap \<le> Cap s"
  by (auto simp: extractSlicedIndexes_def Let_def split: if_splits)

lemma Sliced_InvalidRange_iff:
  "(\<exists>msg. Sliced s idx = Inl (InvalidRange msg)) \<longleftrightarrow>
   (\<exists>err. extractSlicedIndexes s idx = Inl err)"
  by (cases "extractSlicedIndexes s idx")
     (auto simp: Sliced_def go_reslice_def split: sum.splits prod.splits option.splits if_splits)

lemma Sliced_two: "Sliced s [low, high] = Sliced s [low, high, Cap s]"
  by (simp add: Sliced_def extractSlicedIndexes_def Let_def)

lemma Sliced_valid:
  assumes "wf_view h v" "array v = Some a" "0 \<le> low" "low \<le> high" "high \<le> mx" "mx \<le> Cap v"
  shows "Sliced v [low, high, mx] =
           Inr (mkview (sl_block a) (sl_off a + nat low) (nat (high - low)) (nat (mx - low)))"
  using assms
  by (simp add: Sliced_def extractSlicedIndexes_def go_reslice_def mkview_def wf_view_def Cap_def)

lemma Sliced_Inr_bounds:
  "Sliced v idx = Inr s \<Longrightarrow> 0 \<le> Len s \<and> Len s \<le> Cap s \<and> \<not> IsNil s"
  by (cases "extractSlicedIndexes v idx")
     (auto simp: Sliced_def Len_def Cap_def IsNil_def dest!: extractSlicedIndexes_Inr
           split: sum.splits prod.splits option.splits)

lemma wf_view_mkview:
  "wf_view h (mkview b off len cap) \<longleftrightarrow>
     len \<le> cap \<and> int cap < 2 ^ 63 \<and> b < length h \<and> off + cap \<le> length (h ! b)"
  by (auto simp: wf_view_def mkview_def)

lemma Sliced_wf:
  assumes "wf_view h v" "Sliced v idx = Inr s"
  shows "wf_view h s"
proof -
  from assms(2) obtain low high newCap a a' where
    e: "extractSlicedIndexes v idx = Inr (low, high, newCap)" and a: "array v = Some a"
    and r: "go_reslice a low high newCap = Inr a'"
    and s: "s = \<lparr>array = Some a', length_f = high - low, capacity = newCap - low\<rparr>"
    by (auto simp: Sliced_def split: sum.splits prod.splits option.splits)
  from extractSlicedIndexes_Inr [OF e] have b: "0 \<le> low" "low \<le> high" "high \<le> newCap" "newCap \<le> Cap v"
    by auto
  from r have a': "a' = \<lparr>sl_block = sl_block a, sl_off = sl_off a + nat low,
                sl_len = nat (high - low), sl_cap = nat (newCap - low)\<rparr>"
    by (auto simp: go_reslice_def split: if_splits)
  show ?thesis
    using assms(1) a b unfolding s a' by (auto simp: wf_view_def Cap_def)
qed

lemma mkview_sel:
  "Len (mkview b off len cap) = int len" "Cap (mkview b off len cap) = int cap"
  "array (mkview b off len cap) = Some \<lparr>sl_block = b, sl_off = off, sl_len = len, sl_cap = cap\<rparr>"
  "\<not> IsNil (mkview b off len cap)"
  by (simp_all add: mkview_def Len_def Cap_def IsNil_def)


lemma Sliced_InvalidRange_conditions:
  "(\<exists>msg. Sliced s idx = Inl (InvalidRange msg)) \<longleftrightarrow>
     length idx < 2 \<or> length idx > 3 \<or> idx ! 0 < 0 \<or> idx ! 1 < 0 \<or> idx ! 0 > idx ! 1
     \<or> idx ! 1 > Cap s
     \<or> (if length idx = 3 then idx ! 2 else Cap s) < idx ! 1
     \<or> (if length idx = 3 then idx ! 2 else Cap s) > Cap s"
  using Sliced_InvalidRange_iff [of s idx] extractSlicedIndexes_Inl_iff [of s idx] by blast

lemma Sliced_succeeds_with_buffer:
  assumes "wf_view h v" "\<not> IsNil v" "\<not> (\<exists>msg. Sliced v idx = Inl (InvalidRange msg))"
  shows "\<exists>s. Sliced v idx = Inr s"
proof -
  obtain a where a: "array v = Some a"
    using assms(2) by (auto simp: IsNil_def)
  from assms(3) obtain low high newCap where
    e: "extractSlicedIndexes v idx = Inr (low, high, newCap)"
    by (cases "extractSlicedIndexes v idx") (auto simp: Sliced_InvalidRange_iff)
  from extractSlicedIndexes_Inr [OF e] assms(1) a
  have "\<exists>a'. go_reslice a low high newCap = Inr a'"
    by (auto simp: go_reslice_def wf_view_def Cap_def)
  then show ?thesis
    using e a by (auto simp: Sliced_def)
qed

text \<open>
  A sub-view aliases its parent. For every view \<open>v\<close> the package builds over a backing
  buffer and all \<open>0 \<le> low \<le> high \<le> maxCap \<le> v.Cap()\<close>, \<open>v.Sliced(low, high, maxCap)\<close>
  returns a view over the same block, its header \<open>low\<close> cells after the parent's, with
  length \<open>high - low\<close> and capacity \<open>maxCap - low\<close>; \<open>v.Sliced(low, high)\<close> is the same
  with \<open>maxCap = v.Cap()\<close>. No element is copied (the operation does not touch the
  store): reading the sub-view at \<open>i\<close> reads the parent's cell \<open>low + i\<close>, and writing
  the sub-view at \<open>i\<close> writes the parent's cell \<open>low + i\<close>, which the parent's \<open>Get\<close>
  returns wherever \<open>low + i\<close> is below the parent's length.
\<close>

lemma Sliced_aliases_parent:
  assumes "wf_view h v" and "array v = Some a"
    and "0 \<le> low" and "low \<le> high" and "high \<le> mx" and "mx \<le> Cap v"
  shows "\<exists>s a'. Sliced v [low, high, mx] = Inr s
           \<and> (mx = Cap v \<longrightarrow> Sliced v [low, high] = Inr s)
           \<and> Len s = high - low \<and> Cap s = mx - low
           \<and> array s = Some a' \<and> sl_block a' = sl_block a \<and> sl_off a' = sl_off a + nat low
           \<and> wf_view h s
           \<and> (\<forall>i. 0 \<le> i \<and> i < Len s \<and> low + i < Len v \<longrightarrow> Get h s i = Get h v (low + i))
           \<and> (\<forall>i x. 0 \<le> i \<and> i < Len s \<longrightarrow>
                (\<exists>h'. Set h s i x = Inr h' \<and> length h' = length h
                   \<and> h' = poke h (sl_block a) (sl_off a + nat (low + i)) x
                   \<and> (low + i < Len v \<longrightarrow>
                        Set h v (low + i) x = Inr h' \<and> Get h' v (low + i) = Inr x)))"
proof -
  define s where "s = mkview (sl_block a) (sl_off a + nat low) (nat (high - low)) (nat (mx - low))"
  define a' where "a' = \<lparr>sl_block = sl_block a, sl_off = sl_off a + nat low,
                         sl_len = nat (high - low), sl_cap = nat (mx - low)\<rparr>"
  have sl: "Sliced v [low, high, mx] = Inr s"
    unfolding s_def using assms by (rule Sliced_valid)
  have sl2: "mx = Cap v \<longrightarrow> Sliced v [low, high] = Inr s"
    using sl by (auto simp: Sliced_two)
  have len: "Len s = high - low" and cap: "Cap s = mx - low" and arr: "array s = Some a'"
    using assms(3-5) by (simp_all add: s_def a'_def mkview_sel)
  have wf: "wf_view h s"
    using assms(1) sl by (rule Sliced_wf)
  have rd: "Get h s i = Get h v (low + i)" if "0 \<le> i" "i < Len s" "low + i < Len v" for i
  proof -
    have "Get h s i = Inr (h ! sl_block a ! (sl_off a + nat low + nat i))"
      using Get_wf [OF wf arr that(1,2)] by (simp add: a'_def)
    moreover have "Get h v (low + i) = Inr (h ! sl_block a ! (sl_off a + nat (low + i)))"
      using Get_wf [OF assms(1,2), of "low + i"] that assms(3) by simp
    moreover have "sl_off a + nat low + nat i = sl_off a + nat (low + i)"
      using that(1) assms(3) by (simp add: nat_add_distrib)
    ultimately show ?thesis by simp
  qed
  have wr: "\<exists>h'. Set h s i x = Inr h' \<and> length h' = length h
                   \<and> h' = poke h (sl_block a) (sl_off a + nat (low + i)) x
                   \<and> (low + i < Len v \<longrightarrow>
                        Set h v (low + i) x = Inr h' \<and> Get h' v (low + i) = Inr x)"
    if "0 \<le> i" "i < Len s" for i x
  proof -
    have eq: "sl_off a + nat low + nat i = sl_off a + nat (low + i)"
      using that(1) assms(3) by (simp add: nat_add_distrib)
    have 1: "Set h s i x = Inr (poke h (sl_block a) (sl_off a + nat (low + i)) x)"
      using Set_wf [OF wf arr that, of x] by (simp add: a'_def eq)
    have 2: "Set h v (low + i) x = Inr (poke h (sl_block a) (sl_off a + nat (low + i)) x)"
      if "low + i < Len v"
      using Set_wf [OF assms(1,2), of "low + i" x] that \<open>0 \<le> i\<close> assms(3) by simp
    have 3: "Get (poke h (sl_block a) (sl_off a + nat (low + i)) x) v (low + i) = Inr x"
      if "low + i < Len v"
      using Set_then_Get [OF assms(1,2), of "low + i" x "low + i"] that \<open>0 \<le> i\<close> assms(3) by simp
    show ?thesis using 1 2 3 by (simp add: length_poke)
  qed
  show ?thesis
    using sl sl2 len cap arr wf rd wr by (simp add: a'_def)
qed


text \<open>The example of the specification: \<open>[1, 2, 3, 4, 5]\<close> sliced at \<open>(1, 3)\<close>.\<close>

lemma New_example:
  "New [] [1, 2, 3, 4, 5] int_elem = Inr (mkview 0 0 5 5, [[1, 2, 3, 4, 5]])"
  by (simp add: New_def Make_def extractMakeIndexes_def go_make_def go_index_def Set_def
        go_store_def poke_def mkview_def numeral_eq_Suc)

lemma Sliced_aliases_parent_example:
  "New [] [1, 2, 3, 4, 5] int_elem = Inr (mkview 0 0 5 5, [[1, 2, 3, 4, 5]])
   \<and> wf_view [[1, 2, 3, 4, 5::int]] (mkview 0 0 5 5)
   \<and> array (mkview 0 0 5 5) = Some \<lparr>sl_block = 0, sl_off = 0, sl_len = 5, sl_cap = 5\<rparr>
   \<and> (0::int) \<le> 1 \<and> (1::int) \<le> 3 \<and> (3::int) \<le> 5 \<and> 5 \<le> Cap (mkview 0 0 5 5)
   \<and> (\<exists>s. Sliced (mkview 0 0 5 5) [1, 3] = Inr s \<and> Len s = 2 \<and> Cap s = 4
          \<and> Get [[1, 2, 3, 4, 5::int]] s 0 = Inr 2
          \<and> (\<exists>h'. Set [[1, 2, 3, 4, 5::int]] s 0 99 = Inr h'
                \<and> Get h' (mkview 0 0 5 5) 1 = Inr 99))"
proof -
  let ?h = "[[1, 2, 3, 4, 5::int]]" and ?v = "mkview 0 0 5 5"
  let ?a = "\<lparr>sl_block = 0, sl_off = 0, sl_len = 5, sl_cap = 5\<rparr>"
  have wf: "wf_view ?h ?v" by (simp add: wf_view_mkview)
  have a: "array ?v = Some ?a" by (simp add: mkview_sel)
  have c: "5 \<le> Cap ?v" by (simp add: mkview_sel)
  have g: "Get ?h ?v 1 = Inr 2"
    by (simp add: Get_def go_load_def mkview_def Len_def)
  from Sliced_aliases_parent [OF wf a, of 1 3 5] c
  obtain s where s: "Sliced ?v [1, 3] = Inr s" "Len s = 2" "Cap s = 4"
      "\<forall>i. 0 \<le> i \<and> i < Len s \<and> 1 + i < Len ?v \<longrightarrow> Get ?h s i = Get ?h ?v (1 + i)"
      "\<forall>i x. 0 \<le> i \<and> i < Len s \<longrightarrow>
          (\<exists>h'. Set ?h s i x = Inr h' \<and> (1 + i < Len ?v \<longrightarrow> Get h' ?v (1 + i) = Inr x))"
    by (auto simp: mkview_sel)
  from s(4) s(2) have "Get ?h s 0 = Inr 2"
    using g by (simp add: mkview_sel)
  moreover from s(5) [rule_format, of 0 99] s(2)
  have "\<exists>h'. Set ?h s 0 99 = Inr h' \<and> Get h' ?v 1 = Inr 99"
    by (simp add: mkview_sel)
  ultimately show ?thesis
    using s(1-3) wf a c New_example by auto
qed


text \<open>
  C7. \<open>Sliced\<close> is to return, for every view and valid arguments, a view of length
  \<open>high - low\<close> and capacity \<open>maxCap - low\<close> over the parent's buffer. On every view
  with a backing buffer it does (\<open>Sliced_aliases_parent\<close>). On the zero-value view,
  whose only valid arguments are \<open>(0, 0)\<close> and \<open>(0, 0, 0)\<close>, it returns no view at all:
  after the range check passes, \<^verbatim>\<open>(*s.array)[low:high:newCap]\<close> dereferences the nil
  pointer, whatever the arguments.
\<close>

theorem Sliced_nil_view_returns_no_view:
  "IsNil nilSlice \<and> Cap nilSlice = 0
   \<and> Sliced nilSlice [0, 0] = Inl NilDereference
   \<and> Sliced nilSlice idx \<noteq> Inr s"
  by (simp add: nilSlice_def IsNil_def Cap_def Sliced_def extractSlicedIndexes_def Let_def
        split: sum.splits prod.splits)

text \<open>
  C8. \<open>Sliced\<close> panics with \<open>InvalidRange\<close> exactly under the listed conditions
  (\<open>Sliced_InvalidRange_conditions\<close>, for every view), and succeeds otherwise on every
  view with a backing buffer (\<open>Sliced_succeeds_with_buffer\<close>). On the zero-value view
  the second half fails: for \<open>Sliced(0, 0)\<close> and \<open>Sliced(0, 0, 0)\<close> none of the conditions
  holds, and the call neither succeeds nor reports \<open>InvalidRange\<close>: it dereferences the
  nil \<^verbatim>\<open>array\<close> pointer.
\<close>

theorem Sliced_nil_view_panics:
  "IsNil nilSlice \<and> Len nilSlice = 0 \<and> Cap nilSlice = 0
   \<and> Sliced nilSlice [0, 0] = Inl NilDereference
   \<and> Sliced nilSlice [0, 0, 0] = Inl NilDereference"
  by (simp add: nilSlice_def IsNil_def Len_def Cap_def Sliced_def extractSlicedIndexes_def)

subsection \<open>The growth policy\<close>

lemma wrap64_id: "int64 x \<Longrightarrow> wrap64 x = x"
  by (simp add: int64_def wrap64_def)

lemma int64_wrap64: "int64 (wrap64 x)"
proof -
  have "0 \<le> (x + 2 ^ 63) mod 2 ^ 64" "(x + 2 ^ 63) mod 2 ^ 64 < (2 ^ 64 :: int)"
    by simp_all
  then show ?thesis by (simp add: int64_def wrap64_def)
qed

lemma uint64_wrap64: "uint64 (wrap64 x) = uint64 x"
proof -
  have "(x + 2 ^ 63) mod 2 ^ 64 - 2 ^ 63 = ((x + 2 ^ 63) mod 2 ^ 64 - 2 ^ 63 mod 2 ^ 64 :: int)"
    by simp
  have "((x + 2 ^ 63) mod 2 ^ 64 - 2 ^ 63) mod 2 ^ 64 = (x + 2 ^ 63 - 2 ^ 63) mod (2 ^ 64 :: int)"
    by (rule mod_diff_left_eq)
  then show ?thesis by (simp add: uint64_def wrap64_def)
qed

lemma uint64_id: "0 \<le> x \<Longrightarrow> x < 2 ^ 64 \<Longrightarrow> uint64 x = x"
  by (simp add: uint64_def)

lemma quo_nonneg: "0 \<le> c \<Longrightarrow> quo c 4 = c div 4"
  by (simp add: quo_def)

lemma uint64_growStep:
  "0 \<le> c \<Longrightarrow> c < 2 ^ 63 \<Longrightarrow> uint64 (growStep c) = c + c div 4"
proof -
  assume c: "0 \<le> c" "c < 2 ^ 63"
  have "c div 4 \<le> c" using c(1) by simp
  then have "0 \<le> c + c div 4" "c + c div 4 < 2 ^ 64" using c by auto
  then show ?thesis
    using c by (simp add: growStep_def uint64_wrap64 quo_nonneg uint64_id)
qed

lemma growStep_small:
  "0 \<le> c \<Longrightarrow> c + c div 4 < 2 ^ 63 \<Longrightarrow> growStep c = c + c div 4"
  by (simp add: growStep_def quo_nonneg wrap64_id int64_def)

lemma growLoop_returns:
  assumes "0 \<le> newLen" "newLen < 2 ^ 63"
  shows "4 \<le> c \<Longrightarrow> c < 2 ^ 63 \<Longrightarrow>
         \<exists>k\<ge>1. (\<forall>j. 1 \<le> j \<and> j < k \<longrightarrow> uint64 ((growStep ^^ j) c) < uint64 newLen)
               \<and> uint64 newLen \<le> uint64 ((growStep ^^ k) c)
               \<and> growLoop c newLen = Some ((growStep ^^ k) c)"
proof (induction "nat (newLen - c)" arbitrary: c rule: less_induct)
  case less
  have u: "uint64 (growStep c) = c + c div 4"
    using less.prems by (simp add: uint64_growStep)
  have ul: "uint64 newLen = newLen"
    using assms by (simp add: uint64_id)
  show ?case
  proof (cases "newLen \<le> c + c div 4")
    case True
    then have "growLoop c newLen = Some (growStep c)"
      by (subst growLoop.simps) (simp add: u ul)
    then have "(\<forall>j. 1 \<le> j \<and> j < (1::nat) \<longrightarrow> uint64 ((growStep ^^ j) c) < uint64 newLen)
               \<and> uint64 newLen \<le> uint64 ((growStep ^^ 1) c)
               \<and> growLoop c newLen = Some ((growStep ^^ 1) c)"
      using True by (simp add: u ul)
    then show ?thesis by blast
  next
    case False
    then have lt: "c + c div 4 < newLen" by simp
    then have g: "growStep c = c + c div 4"
      using less.prems assms by (simp add: growStep_small)
    have d: "1 \<le> c div 4" using less.prems by simp
    have "nat (newLen - growStep c) < nat (newLen - c)"
      using g d lt by simp
    moreover have "4 \<le> growStep c" "growStep c < 2 ^ 63"
      using g d lt less.prems assms by simp_all
    ultimately obtain k where k: "1 \<le> k"
        "\<forall>j. 1 \<le> j \<and> j < k \<longrightarrow> uint64 ((growStep ^^ j) (growStep c)) < uint64 newLen"
        "uint64 newLen \<le> uint64 ((growStep ^^ k) (growStep c))"
        "growLoop (growStep c) newLen = Some ((growStep ^^ k) (growStep c))"
      using less.hyps [of "growStep c"] by blast
    have sw: "(growStep ^^ j) (growStep c) = (growStep ^^ Suc j) c" for j
      by (simp add: funpow_swap1)
    have loop: "growLoop c newLen = Some ((growStep ^^ Suc k) c)"
      using lt k(4) by (subst growLoop.simps) (simp add: u ul sw del: funpow.simps)
    have first: "uint64 ((growStep ^^ j) c) < uint64 newLen" if "1 \<le> j" "j < Suc k" for j
    proof (cases "j = 1")
      case True
      then show ?thesis using lt by (simp add: u ul)
    next
      case False
      with that have "j = Suc (j - 1)" "1 \<le> j - 1" "j - 1 < k"
        by auto
      then show ?thesis using k(2) sw [of "j - 1"] by metis
    qed
    have "1 \<le> Suc k" by simp
    moreover have "uint64 newLen \<le> uint64 ((growStep ^^ Suc k) c)"
      using k(3) sw [of k] by simp
    ultimately show ?thesis using first loop by blast
  qed
qed


lemma int64_growStep_funpow: "1 \<le> k \<Longrightarrow> int64 ((growStep ^^ k) c)"
  by (cases k) (simp_all add: growStep_def int64_wrap64)

lemma wrap64_double_small: "0 \<le> c \<Longrightarrow> c < 2 ^ 62 \<Longrightarrow> wrap64 (2 * c) = 2 * c"
  by (simp add: wrap64_id int64_def)

lemma wrap64_double_large: "2 ^ 62 \<le> c \<Longrightarrow> c < 2 ^ 63 \<Longrightarrow> wrap64 (2 * c) < 0"
proof -
  assume c: "2 ^ 62 \<le> c" "c < 2 ^ 63"
  define x where "x = 2 * c + 2 ^ 63"
  have x: "2 ^ 64 \<le> x" "x < 2 ^ 64 + 2 ^ 63"
    using c by (simp_all add: x_def)
  have "x mod 2 ^ 64 = (x - 2 ^ 64) mod 2 ^ 64"
    by (rule minus_mod_self2 [symmetric])
  also have "\<dots> = x - 2 ^ 64"
    using x by (intro mod_pos_pos_trivial) auto
  finally have "x mod 2 ^ 64 - 2 ^ 63 < 0"
    using x by simp
  then show ?thesis by (simp add: wrap64_def x_def)
qed

lemma nextSliceCapacity_regime3:
  assumes "0 \<le> newLen" "newLen < 2 ^ 63" "1024 \<le> oldCap" "oldCap < 2 ^ 63"
    and "newLen \<le> wrap64 (2 * oldCap)"
  shows "\<exists>k\<ge>1. (\<forall>j. 1 \<le> j \<and> j < k \<longrightarrow> uint64 ((growStep ^^ j) oldCap) < uint64 newLen)
           \<and> uint64 newLen \<le> uint64 ((growStep ^^ k) oldCap)
           \<and> nextSliceCapacity newLen oldCap =
               Some (if (growStep ^^ k) oldCap \<le> 0 then newLen else (growStep ^^ k) oldCap)"
proof -
  have "4 \<le> oldCap" using assms(3) by simp
  from growLoop_returns [OF assms(1,2) this assms(4)]
  obtain k where k: "1 \<le> k"
      "\<forall>j. 1 \<le> j \<and> j < k \<longrightarrow> uint64 ((growStep ^^ j) oldCap) < uint64 newLen"
      "uint64 newLen \<le> uint64 ((growStep ^^ k) oldCap)"
      "growLoop oldCap newLen = Some ((growStep ^^ k) oldCap)"
    by blast
  have "nextSliceCapacity newLen oldCap =
          Some (if (growStep ^^ k) oldCap \<le> 0 then newLen else (growStep ^^ k) oldCap)"
    using assms(3,5) k(4) by (simp add: nextSliceCapacity_def threshold_def)
  with k(1-3) show ?thesis by blast
qed

lemma nextSliceCapacity_examples:
  "nextSliceCapacity 1 0 = Some 1" "nextSliceCapacity 2 1 = Some 2"
  "nextSliceCapacity 1025 1024 = Some 1280"
    apply (simp add: nextSliceCapacity_def wrap64_def threshold_def)
   apply (simp add: nextSliceCapacity_def wrap64_def threshold_def)
  apply (subst nextSliceCapacity_def)
  apply (subst growLoop.simps)
  apply (simp add:  wrap64_def threshold_def growStep_def quo_def uint64_def)
  done

lemma nextSliceCapacity_returns:
  assumes "0 \<le> newLen" "newLen < 2 ^ 63" "0 \<le> oldCap" "oldCap < 2 ^ 63"
  shows "\<exists>c. nextSliceCapacity newLen oldCap = Some c \<and> newLen \<le> c \<and> c < 2 ^ 63"
proof (cases "wrap64 (2 * oldCap) < newLen")
  case True
  then show ?thesis using assms(2) by (simp add: nextSliceCapacity_def)
next
  case False
  then have le: "newLen \<le> wrap64 (2 * oldCap)" by simp
  show ?thesis
  proof (cases "oldCap < 1024")
    case True
    then have "wrap64 (2 * oldCap) = 2 * oldCap"
      using assms(3) by (simp add: wrap64_double_small)
    then show ?thesis
      using True le by (simp add: nextSliceCapacity_def threshold_def)
  next
    case False
    then have "1024 \<le> oldCap" by simp
    from nextSliceCapacity_regime3 [OF assms(1,2) this assms(4) le]
    obtain k where k: "1 \<le> k" "uint64 newLen \<le> uint64 ((growStep ^^ k) oldCap)"
        "nextSliceCapacity newLen oldCap =
               Some (if (growStep ^^ k) oldCap \<le> 0 then newLen else (growStep ^^ k) oldCap)"
      by blast
    let ?r = "(growStep ^^ k) oldCap"
    have r: "int64 ?r" using k(1) by (rule int64_growStep_funpow)
    show ?thesis
    proof (cases "?r \<le> 0")
      case True
      then show ?thesis using k(3) assms(2) by simp
    next
      case False
      then have "uint64 ?r = ?r" using r by (simp add: uint64_id int64_def)
      moreover have "uint64 newLen = newLen" using assms by (simp add: uint64_id)
      ultimately show ?thesis using k(2,3) False r by (simp add: int64_def)
    qed
  qed
qed

text \<open>
  C5. For all 64-bit \<open>newLen, oldCap \<ge> 0\<close>, with \<open>2 * oldCap\<close> the doubled capacity as
  the machine computes it (it is the exact product below \<open>2 ^ 62\<close> and wraps to a
  negative value from there on): if \<open>newLen\<close> exceeds it the result is \<open>newLen\<close>;
  otherwise if \<open>oldCap < 1024\<close> the result is \<open>2 * oldCap\<close>; otherwise the loop returns,
  after some \<open>k \<ge> 1\<close> rounds of \<open>newCap += newCap / 4\<close> from \<open>oldCap\<close>, at the first
  round whose value is at least \<open>newLen\<close> in the unsigned order, and the result is that
  value, or \<open>newLen\<close> if the value is \<open>\<le> 0\<close>. The three values of the specification:
  \<open>nextCapacity(1, 0) = 1\<close>, \<open>nextCapacity(2, 1) = 2\<close>, \<open>nextCapacity(1025, 1024) = 1280\<close>.
\<close>

theorem nextSliceCapacity_policy:
  assumes "0 \<le> newLen" and "newLen < 2 ^ 63" and "0 \<le> oldCap" and "oldCap < 2 ^ 63"
  shows "(wrap64 (2 * oldCap) < newLen \<longrightarrow> nextSliceCapacity newLen oldCap = Some newLen)
       \<and> (newLen \<le> wrap64 (2 * oldCap) \<and> oldCap < 1024 \<longrightarrow>
            nextSliceCapacity newLen oldCap = Some (2 * oldCap))
       \<and> (newLen \<le> wrap64 (2 * oldCap) \<and> 1024 \<le> oldCap \<longrightarrow>
            (\<exists>k\<ge>1. (\<forall>j. 1 \<le> j \<and> j < k \<longrightarrow>
                         uint64 ((growStep ^^ j) oldCap) < uint64 newLen)
               \<and> uint64 newLen \<le> uint64 ((growStep ^^ k) oldCap)
               \<and> nextSliceCapacity newLen oldCap =
                   Some (if (growStep ^^ k) oldCap \<le> 0 then newLen
                         else (growStep ^^ k) oldCap)))
       \<and> (oldCap < 2 ^ 62 \<longrightarrow> wrap64 (2 * oldCap) = 2 * oldCap)
       \<and> (2 ^ 62 \<le> oldCap \<longrightarrow> wrap64 (2 * oldCap) < 0)
       \<and> nextSliceCapacity 1 0 = Some 1 \<and> nextSliceCapacity 2 1 = Some 2
       \<and> nextSliceCapacity 1025 1024 = Some 1280"
proof -
  have 1: "wrap64 (2 * oldCap) < newLen \<longrightarrow> nextSliceCapacity newLen oldCap = Some newLen"
    by (simp add: nextSliceCapacity_def)
  have 2: "newLen \<le> wrap64 (2 * oldCap) \<and> oldCap < 1024 \<longrightarrow>
            nextSliceCapacity newLen oldCap = Some (2 * oldCap)"
    using assms(3) wrap64_double_small [of oldCap]
    by (auto simp: nextSliceCapacity_def threshold_def)
  have 3: "newLen \<le> wrap64 (2 * oldCap) \<and> 1024 \<le> oldCap \<longrightarrow>
            (\<exists>k\<ge>1. (\<forall>j. 1 \<le> j \<and> j < k \<longrightarrow>
                         uint64 ((growStep ^^ j) oldCap) < uint64 newLen)
               \<and> uint64 newLen \<le> uint64 ((growStep ^^ k) oldCap)
               \<and> nextSliceCapacity newLen oldCap =
                   Some (if (growStep ^^ k) oldCap \<le> 0 then newLen
                         else (growStep ^^ k) oldCap))"
    using nextSliceCapacity_regime3 [OF assms(1,2) _ assms(4)] by blast
  have 4: "oldCap < 2 ^ 62 \<longrightarrow> wrap64 (2 * oldCap) = 2 * oldCap"
    using assms(3) by (simp add: wrap64_double_small)
  have 5: "2 ^ 62 \<le> oldCap \<longrightarrow> wrap64 (2 * oldCap) < 0"
    using assms(4) by (simp add: wrap64_double_large)
  show ?thesis
    using 1 2 3 4 5 nextSliceCapacity_examples by blast
qed


theorem nextSliceCapacity_policy_witness:
  "(0::int) \<le> 1025 \<and> (1025::int) < 2 ^ 63 \<and> (0::int) \<le> 1024 \<and> (1024::int) < 2 ^ 63
   \<and> 1025 \<le> wrap64 (2 * 1024) \<and> wrap64 (2 * 2) < 5 \<and> 5 \<le> wrap64 (2 * 4)
   \<and> (\<exists>k\<ge>1. uint64 1025 \<le> uint64 ((growStep ^^ k) 1024)
          \<and> nextSliceCapacity 1025 1024 =
              Some (if (growStep ^^ k) 1024 \<le> 0 then 1025 else (growStep ^^ k) 1024))
   \<and> nextSliceCapacity 5 2 = Some 5
   \<and> nextSliceCapacity 5 4 = Some (2 * 4)"
proof -
  have r: "(0::int) \<le> 1025" "(1025::int) < 2 ^ 63" "(0::int) \<le> 1024" "(1024::int) < 2 ^ 63"
    "(0::int) \<le> 5" "(5::int) < 2 ^ 63" "(0::int) \<le> 2" "(2::int) < 2 ^ 63"
    "(0::int) \<le> 4" "(4::int) < 2 ^ 63"
    by simp_all
  have p: "1025 \<le> wrap64 (2 * 1024)" "(1024::int) \<le> 1024" "wrap64 (2 * 2) < 5"
    "5 \<le> wrap64 (2 * 4)" "(4::int) < 1024"
    by (simp_all add: wrap64_def)
  have 3: "\<exists>k\<ge>1. uint64 1025 \<le> uint64 ((growStep ^^ k) 1024)
          \<and> nextSliceCapacity 1025 1024 =
              Some (if (growStep ^^ k) 1024 \<le> 0 then 1025 else (growStep ^^ k) 1024)"
    using nextSliceCapacity_policy [OF r(1-4)] p(1,2) by blast
  have 1: "nextSliceCapacity 5 2 = Some 5"
    using nextSliceCapacity_policy [OF r(5-8)] p(3) by blast
  have 2: "nextSliceCapacity 5 4 = Some (2 * 4)"
    using nextSliceCapacity_policy [OF r(5,6,9,10)] p(4,5) by blast
  show ?thesis
    using r(1-4) p(1,3,4) 1 2 3 by blast
qed

subsection \<open>Bulk copy\<close>

text \<open>
  The loops are unfolded one round at a time, by hand or along their induction rules.
\<close>

declare Copy_loop.simps [simp del] growSlice_loop.simps [simp del] Append_loop.simps [simp del]
  New_loop.simps [simp del]

lemma wf_view_shape:
  "length h' = length h \<Longrightarrow> \<forall>b. length (h' ! b) = length (h ! b) \<Longrightarrow>
   wf_view h s \<Longrightarrow> wf_view h' s"
  by (simp add: wf_view_def split: option.splits)

lemma Copy_loop_forward:
  "wf_view h dst \<Longrightarrow> wf_view h src \<Longrightarrow> array dst = Some ad \<Longrightarrow> array src = Some as \<Longrightarrow>
   n \<le> Len dst \<Longrightarrow> n \<le> Len src \<Longrightarrow> 0 \<le> i \<Longrightarrow> i \<le> n \<Longrightarrow>
   sl_block ad \<noteq> sl_block as \<or> sl_off ad \<le> sl_off as \<or> sl_off as + nat n \<le> sl_off ad \<Longrightarrow>
   \<exists>h'. Copy_loop h dst src n i = Inr h' \<and> length h' = length h
      \<and> (\<forall>b. length (h' ! b) = length (h ! b))
      \<and> (\<forall>b k. b < length h \<longrightarrow> k < length (h ! b) \<longrightarrow>
            h' ! b ! k =
              (if b = sl_block ad \<and> sl_off ad + nat i \<le> k \<and> k < sl_off ad + nat n
               then h ! sl_block as ! (sl_off as + (k - sl_off ad)) else h ! b ! k))"
proof (induction h dst src n i rule: Copy_loop.induct)
  case (1 h dst src n i)
  show ?case
  proof (cases "i < n")
    case False
    then have "i = n" using "1.prems" by simp
    then show ?thesis
      by (subst Copy_loop.simps) auto
  next
    case True
    let ?x = "h ! sl_block as ! (sl_off as + nat i)"
    let ?h1 = "poke h (sl_block ad) (sl_off ad + nat i) ?x"
    have g: "Get h src i = Inr ?x"
      using "1.prems" True by (simp add: Get_wf)
    have st: "Set h dst i ?x = Inr ?h1"
      using "1.prems" True by (simp add: Set_wf)
    have bd: "sl_block ad < length h" and kd: "sl_off ad + nat i < length (h ! sl_block ad)"
      and bs: "sl_block as < length h"
      using "1.prems" True by (auto simp: wf_view_def Len_def)
    have "\<exists>h'. Copy_loop ?h1 dst src n (i + 1) = Inr h' \<and> length h' = length ?h1
      \<and> (\<forall>b. length (h' ! b) = length (?h1 ! b))
      \<and> (\<forall>b k. b < length ?h1 \<longrightarrow> k < length (?h1 ! b) \<longrightarrow>
            h' ! b ! k =
              (if b = sl_block ad \<and> sl_off ad + nat (i + 1) \<le> k \<and> k < sl_off ad + nat n
               then ?h1 ! sl_block as ! (sl_off as + (k - sl_off ad)) else ?h1 ! b ! k))"
      using "1.prems" True
      by (intro "1.IH" [OF True g st]) (simp_all add: wf_view_poke)
    then obtain h' where h': "Copy_loop ?h1 dst src n (i + 1) = Inr h'" "length h' = length h"
      "\<forall>b. length (h' ! b) = length (h ! b)"
      "\<forall>b k. b < length h \<longrightarrow> k < length (h ! b) \<longrightarrow>
            h' ! b ! k =
              (if b = sl_block ad \<and> sl_off ad + nat (i + 1) \<le> k \<and> k < sl_off ad + nat n
               then ?h1 ! sl_block as ! (sl_off as + (k - sl_off ad)) else ?h1 ! b ! k)"
      by (auto simp: length_poke length_poke_block)
    have run: "Copy_loop h dst src n i = Inr h'"
      using True g st h'(1) by (subst Copy_loop.simps) simp
    have pt: "h' ! b ! k =
              (if b = sl_block ad \<and> sl_off ad + nat i \<le> k \<and> k < sl_off ad + nat n
               then h ! sl_block as ! (sl_off as + (k - sl_off ad)) else h ! b ! k)"
      if "b < length h" "k < length (h ! b)" for b k
    proof (cases "b = sl_block ad \<and> sl_off ad + nat (i + 1) \<le> k \<and> k < sl_off ad + nat n")
      case True
      then have ne: "\<not> (sl_block as = sl_block ad \<and> sl_off as + (k - sl_off ad) = sl_off ad + nat i)"
        using "1.prems"(7,9) by auto
      have "h' ! b ! k = ?h1 ! sl_block as ! (sl_off as + (k - sl_off ad))"
        unfolding h'(4) [rule_format, OF that] by (rule if_P [OF True])
      also have "\<dots> = h ! sl_block as ! (sl_off as + (k - sl_off ad))"
        using ne bd kd by (auto simp: poke_nth)
      finally show ?thesis using True "1.prems"(7) by auto
    next
      case False
      then have "h' ! b ! k = ?h1 ! b ! k"
        unfolding h'(4) [rule_format, OF that] by (rule if_not_P)
      also have "\<dots> = (if b = sl_block ad \<and> k = sl_off ad + nat i then ?x else h ! b ! k)"
        using bd kd by (simp add: poke_nth)
      finally show ?thesis
        using False "1.prems"(7) \<open>i < n\<close> by (auto simp: nat_add_distrib)
    qed
    show ?thesis using run h'(2,3) pt by blast
  qed
qed


lemma store_eqI:
  assumes "length h' = length h" "\<forall>b. length (h' ! b) = length (h ! b)"
    and "\<And>b k. b < length h \<Longrightarrow> k < length (h ! b) \<Longrightarrow> h' ! b ! k = h ! b ! k"
  shows "h' = h"
proof (rule nth_equalityI)
  show "length h' = length h" by (rule assms(1))
next
  fix b assume "b < length h'"
  then have b: "b < length h" using assms(1) by simp
  show "h' ! b = h ! b"
    using assms(2) assms(3) [OF b] by (intro nth_equalityI) auto
qed

lemma length_snapshot_copy:
  assumes "sl_block ad < length h" "sl_off ad + n \<le> length (h ! sl_block ad)"
    "sl_off as + n \<le> length (h ! sl_block as)"
  shows "length (snapshot_copy h ad as n) = length h"
    and "length (snapshot_copy h ad as n ! b) = length (h ! b)"
  using assms by (auto simp: snapshot_copy_def nth_list_update)

lemma snapshot_copy_nth:
  assumes "sl_block ad < length h" "sl_off ad + n \<le> length (h ! sl_block ad)"
    "sl_off as + n \<le> length (h ! sl_block as)" "b < length h" "k < length (h ! b)"
  shows "snapshot_copy h ad as n ! b ! k =
           (if b = sl_block ad \<and> sl_off ad \<le> k \<and> k < sl_off ad + n
            then h ! sl_block as ! (sl_off as + (k - sl_off ad)) else h ! b ! k)"
  using assms by (auto simp: snapshot_copy_def nth_list_update nth_append)

lemma Copy_snapshot_when_forward_safe:
  assumes "wf_view h dst" and "wf_view h src"
    and "array dst = Some ad" and "array src = Some as"
    and "sl_off ad \<le> sl_off as
         \<or> sl_off as + nat (min (Len dst) (Len src)) \<le> sl_off ad
         \<or> sl_block ad \<noteq> sl_block as"
  shows "Copy h dst src =
           Inr (min (Len dst) (Len src),
                snapshot_copy h ad as (nat (min (Len dst) (Len src))))"
proof -
  let ?n = "min (Len dst) (Len src)"
  have n0: "0 \<le> ?n"
    using assms(1-4) by (simp add: wf_view_def Len_def)
  have safe: "sl_block ad \<noteq> sl_block as \<or> sl_off ad \<le> sl_off as
              \<or> sl_off as + nat ?n \<le> sl_off ad"
    using assms(5) by blast
  from Copy_loop_forward [where i = 0 and n = ?n, OF assms(1-4) _ _ _ n0 safe]
  obtain h' where h': "Copy_loop h dst src ?n 0 = Inr h'" "length h' = length h"
      "\<forall>b. length (h' ! b) = length (h ! b)"
      "\<forall>b k. b < length h \<longrightarrow> k < length (h ! b) \<longrightarrow>
            h' ! b ! k =
              (if b = sl_block ad \<and> sl_off ad + nat 0 \<le> k \<and> k < sl_off ad + nat ?n
               then h ! sl_block as ! (sl_off as + (k - sl_off ad)) else h ! b ! k)"
    by auto
  have bd: "sl_block ad < length h" "sl_off ad + nat ?n \<le> length (h ! sl_block ad)"
    and bs: "sl_off as + nat ?n \<le> length (h ! sl_block as)"
    using assms(1-4) by (auto simp: wf_view_def Len_def)
  have "h' = snapshot_copy h ad as (nat ?n)"
  proof (rule store_eqI)
    show "length h' = length (snapshot_copy h ad as (nat ?n))"
      using h'(2) length_snapshot_copy(1) [OF bd bs] by simp
    show "\<forall>b. length (h' ! b) = length (snapshot_copy h ad as (nat ?n) ! b)"
      using h'(3) length_snapshot_copy(2) [OF bd bs] by simp
    fix b k
    assume "b < length (snapshot_copy h ad as (nat ?n))"
      and "k < length (snapshot_copy h ad as (nat ?n) ! b)"
    then have bk: "b < length h" "k < length (h ! b)"
      using length_snapshot_copy [OF bd bs] by simp_all
    show "h' ! b ! k = snapshot_copy h ad as (nat ?n) ! b ! k"
      using h'(4) [rule_format, OF bk] snapshot_copy_nth [OF bd bs bk] by simp
  qed
  moreover have "Copy h dst src = Inr (?n, h')"
    using h'(1) by (auto simp: Copy_def Let_def min_def)
  ultimately show ?thesis by simp
qed

lemma Copy_loop_is_forward_copy:
  "wf_view h dst \<Longrightarrow> wf_view h src \<Longrightarrow> array dst = Some ad \<Longrightarrow> array src = Some as \<Longrightarrow>
   n \<le> Len dst \<Longrightarrow> n \<le> Len src \<Longrightarrow> 0 \<le> i \<Longrightarrow> i \<le> n \<Longrightarrow>
   Copy_loop h dst src n i = Inr (forward_copy h ad as (nat i) (nat (n - i)))"
proof (induction h dst src n i rule: Copy_loop.induct)
  case (1 h dst src n i)
  show ?case
  proof (cases "i < n")
    case False
    then have "i = n" using "1.prems" by simp
    then show ?thesis
      by (subst Copy_loop.simps) simp
  next
    case True
    let ?x = "h ! sl_block as ! (sl_off as + nat i)"
    let ?h1 = "poke h (sl_block ad) (sl_off ad + nat i) ?x"
    have g: "Get h src i = Inr ?x"
      using "1.prems" True by (simp add: Get_wf)
    have st: "Set h dst i ?x = Inr ?h1"
      using "1.prems" True by (simp add: Set_wf)
    have "Copy_loop ?h1 dst src n (i + 1)
            = Inr (forward_copy ?h1 ad as (nat (i + 1)) (nat (n - (i + 1))))"
      using "1.prems" True
      by (intro "1.IH" [OF True g st]) (simp_all add: wf_view_poke)
    moreover have "nat (i + 1) = Suc (nat i)" "nat (n - i) = Suc (nat (n - (i + 1)))"
      using "1.prems" True by simp_all
    ultimately show ?thesis
      using True g st by (subst Copy_loop.simps) simp
  qed
qed

lemma forward_copy_shape:
  "length (forward_copy h ad as i m) = length h
   \<and> (\<forall>b. length (forward_copy h ad as i m ! b) = length (h ! b))"
  by (induction m arbitrary: h i) (simp_all add: length_poke length_poke_block)

lemma forward_copy_frame:
  "sl_block ad < length h \<Longrightarrow> sl_off ad + i + m \<le> length (h ! sl_block ad) \<Longrightarrow>
   b < length h \<Longrightarrow> k < length (h ! b) \<Longrightarrow>
   \<not> (b = sl_block ad \<and> sl_off ad + i \<le> k \<and> k < sl_off ad + i + m) \<Longrightarrow>
   forward_copy h ad as i m ! b ! k = h ! b ! k"
proof (induction m arbitrary: h i)
  case 0
  then show ?case by simp
next
  case (Suc m)
  let ?h1 = "poke h (sl_block ad) (sl_off ad + i) (h ! sl_block as ! (sl_off as + i))"
  have "forward_copy ?h1 ad as (Suc i) m ! b ! k = ?h1 ! b ! k"
    using Suc.prems by (intro Suc.IH) (auto simp: length_poke length_poke_block)
  also have "\<dots> = h ! b ! k"
    using Suc.prems by (auto simp: poke_nth)
  finally show ?case by simp
qed

text \<open>
  C2 (amended). \<open>Copy\<close> reads and writes one element at a time, from index 0 upwards,
  and has no other treatment of overlap. For all views \<open>dst\<close> and \<open>src\<close> the package
  builds over backing buffers, overlapping or not, it returns
  \<open>min(dst.Len(), src.Len())\<close>, and the store afterwards is the one that many
  single-cell copies in increasing index order give; blocks keep their lengths and no
  cell outside the first \<open>min(dst.Len(), src.Len())\<close> cells of \<open>dst\<close> changes. That store
  is the one a copy from a snapshot of \<open>src\<close> gives whenever \<open>dst\<close> does not start after
  \<open>src\<close> in a shared buffer, or the copied range of \<open>src\<close> ends before \<open>dst\<close> starts,
  or the two views lie in different buffers.
\<close>

theorem Copy_copies_forward:
  assumes "wf_view h dst" and "wf_view h src"
    and "array dst = Some ad" and "array src = Some as"
  shows "Copy h dst src =
           Inr (min (Len dst) (Len src),
                forward_copy h ad as 0 (nat (min (Len dst) (Len src))))
       \<and> same_shape h (forward_copy h ad as 0 (nat (min (Len dst) (Len src))))
       \<and> (\<forall>b k. b < length h \<and> k < length (h ! b)
             \<and> \<not> (b = sl_block ad \<and> sl_off ad \<le> k
                    \<and> k < sl_off ad + nat (min (Len dst) (Len src))) \<longrightarrow>
             forward_copy h ad as 0 (nat (min (Len dst) (Len src))) ! b ! k = h ! b ! k)
       \<and> (sl_off ad \<le> sl_off as
            \<or> sl_off as + nat (min (Len dst) (Len src)) \<le> sl_off ad
            \<or> sl_block ad \<noteq> sl_block as \<longrightarrow>
          Copy h dst src =
            Inr (min (Len dst) (Len src),
                 snapshot_copy h ad as (nat (min (Len dst) (Len src)))))"
proof -
  let ?n = "min (Len dst) (Len src)"
  have n0: "0 \<le> ?n"
    using assms by (simp add: wf_view_def Len_def)
  have "Copy_loop h dst src ?n 0 = Inr (forward_copy h ad as (nat 0) (nat (?n - 0)))"
    using assms _ _ _ n0 by (rule Copy_loop_is_forward_copy) simp_all
  then have 1: "Copy h dst src = Inr (?n, forward_copy h ad as 0 (nat ?n))"
    by (auto simp: Copy_def Let_def min_def)
  have 2: "same_shape h (forward_copy h ad as 0 (nat ?n))"
    using forward_copy_shape [of h ad as 0 "nat ?n"] by (simp add: same_shape_def)
  have bd: "sl_block ad < length h" "sl_off ad + 0 + nat ?n \<le> length (h ! sl_block ad)"
    using assms by (auto simp: wf_view_def Len_def)
  have 3: "\<forall>b k. b < length h \<and> k < length (h ! b)
             \<and> \<not> (b = sl_block ad \<and> sl_off ad \<le> k \<and> k < sl_off ad + nat ?n) \<longrightarrow>
             forward_copy h ad as 0 (nat ?n) ! b ! k = h ! b ! k"
    using forward_copy_frame [OF bd] by simp
  have 4: "sl_off ad \<le> sl_off as \<or> sl_off as + nat ?n \<le> sl_off ad
            \<or> sl_block ad \<noteq> sl_block as \<longrightarrow>
          Copy h dst src = Inr (?n, snapshot_copy h ad as (nat ?n))"
    using Copy_snapshot_when_forward_safe [OF assms] by blast
  show ?thesis
    using 1 2 3 4 by (intro conjI) assumption+
qed

text \<open>
  Stated for all overlapping views the snapshot property fails, namely when \<open>dst\<close>
  starts after \<open>src\<close> inside the copied range: over \<open>[1, 2, 3, 4, 5]\<close>, with \<open>dst = v.Sliced(1, 5)\<close> and \<open>src = v.Sliced(0, 4)\<close>, each
  element read has just been overwritten, and the buffer ends as \<open>[1, 1, 1, 1, 1]\<close>, where
  the copy from a snapshot gives \<open>[1, 1, 2, 3, 4]\<close>.
\<close>

theorem Copy_overlap_counterexample:
  "Sliced (mkview 0 0 5 5) [1, 5] = Inr (mkview 0 1 4 4)
   \<and> Sliced (mkview 0 0 5 5) [0, 4] = Inr (mkview 0 0 4 5)
   \<and> Copy [[1, 2, 3, 4, 5::int]] (mkview 0 1 4 4) (mkview 0 0 4 5)
       = Inr (4, [[1, 1, 1, 1, 1]])
   \<and> snapshot_copy [[1, 2, 3, 4, 5::int]]
        \<lparr>sl_block = 0, sl_off = 1, sl_len = 4, sl_cap = 4\<rparr>
        \<lparr>sl_block = 0, sl_off = 0, sl_len = 4, sl_cap = 5\<rparr> 4
       = [[1, 1, 2, 3, 4]]"
  by (simp add: Sliced_def extractSlicedIndexes_def go_reslice_def mkview_def Cap_def Len_def
        Copy_def Copy_loop.simps Get_def Set_def go_load_def go_store_def poke_def
        snapshot_copy_def numeral_eq_Suc)

theorem Copy_copies_forward_witness:
  "wf_view [[1, 2, 3, 4, 5::int]] (mkview 0 0 4 5)
   \<and> wf_view [[1, 2, 3, 4, 5::int]] (mkview 0 1 4 4)
   \<and> array (mkview 0 0 4 5) = Some \<lparr>sl_block = 0, sl_off = 0, sl_len = 4, sl_cap = 5\<rparr>
   \<and> array (mkview 0 1 4 4) = Some \<lparr>sl_block = 0, sl_off = 1, sl_len = 4, sl_cap = 4\<rparr>
   \<and> sl_off \<lparr>sl_block = 0, sl_off = 0, sl_len = 4, sl_cap = 5\<rparr>
       \<le> sl_off \<lparr>sl_block = 0, sl_off = 1, sl_len = 4, sl_cap = 4\<rparr>
   \<and> Copy [[1, 2, 3, 4, 5::int]] (mkview 0 0 4 5) (mkview 0 1 4 4)
       = Inr (4, [[2, 3, 4, 5, 5]])
   \<and> Copy [[1, 2, 3, 4, 5::int]] (mkview 0 1 4 4) (mkview 0 0 4 5)
       = Inr (4, [[1, 1, 1, 1, 1]])"
proof -
  let ?h = "[[1, 2, 3, 4, 5::int]]"
  let ?ad = "\<lparr>sl_block = 0, sl_off = 0, sl_len = 4, sl_cap = 5\<rparr>"
  let ?as = "\<lparr>sl_block = 0, sl_off = 1, sl_len = 4, sl_cap = 4\<rparr>"
  have wd: "wf_view ?h (mkview 0 0 4 5)" and ws: "wf_view ?h (mkview 0 1 4 4)"
    by (simp_all add: wf_view_mkview)
  have ad: "array (mkview 0 0 4 5) = Some ?ad" and as: "array (mkview 0 1 4 4) = Some ?as"
    by (simp_all add: mkview_sel)
  have le: "sl_off ?ad \<le> sl_off ?as" by simp
  have n: "nat (min (Len (mkview 0 0 4 5)) (Len (mkview 0 1 4 4))) = 4"
    "min (Len (mkview 0 0 4 5)) (Len (mkview 0 1 4 4)) = 4"
    "nat (min (Len (mkview 0 1 4 4)) (Len (mkview 0 0 4 5))) = 4"
    "min (Len (mkview 0 1 4 4)) (Len (mkview 0 0 4 5)) = 4"
    by (simp_all add: mkview_sel)
  have sn: "snapshot_copy ?h ?ad ?as 4 = [[2, 3, 4, 5, 5]]"
    by (simp add: snapshot_copy_def numeral_eq_Suc)
  have fw: "forward_copy ?h ?as ?ad 0 4 = [[1, 1, 1, 1, 1]]"
    by (simp add: poke_def numeral_eq_Suc)
  have n4: "nat (4::int) = 4" by simp
  have 1: "Copy ?h (mkview 0 0 4 5) (mkview 0 1 4 4) = Inr (4, [[2, 3, 4, 5, 5]])"
    using Copy_copies_forward [OF wd ws ad as, unfolded n n4 sn] le by blast
  have 2: "Copy ?h (mkview 0 1 4 4) (mkview 0 0 4 5) = Inr (4, [[1, 1, 1, 1, 1]])"
    using Copy_copies_forward [OF ws wd as ad, unfolded n n4 fw] by blast
  show ?thesis using wd ws ad as le 1 2 by blast
qed

subsection \<open>Append\<close>

lemma Append_loop_writes:
  "wf_view h res \<Longrightarrow> array res = Some a \<Longrightarrow> resLen \<le> Len res \<Longrightarrow>
   resLen = sLen + int (length elems) \<Longrightarrow> 0 \<le> sLen \<Longrightarrow> sLen \<le> i \<Longrightarrow> i \<le> resLen \<Longrightarrow>
   \<exists>h'. Append_loop h res elems sLen resLen i = Inr h' \<and> length h' = length h
      \<and> (\<forall>b. length (h' ! b) = length (h ! b))
      \<and> (\<forall>b k. b < length h \<longrightarrow> k < length (h ! b) \<longrightarrow>
            h' ! b ! k =
              (if b = sl_block a \<and> sl_off a + nat i \<le> k \<and> k < sl_off a + nat resLen
               then elems ! (k - sl_off a - nat sLen) else h ! b ! k))"
proof (induction h res elems sLen resLen i rule: Append_loop.induct)
  case (1 h res elems sLen resLen i)
  show ?case
  proof (cases "i < resLen")
    case False
    then have "i = resLen" using "1.prems" by simp
    then show ?thesis
      by (subst Append_loop.simps) auto
  next
    case True
    let ?x = "elems ! nat (i - sLen)"
    let ?h1 = "poke h (sl_block a) (sl_off a + nat i) ?x"
    have g: "go_index elems (i - sLen) = Inr ?x"
      using "1.prems" True by (simp add: go_index_def)
    have st: "Set h res i ?x = Inr ?h1"
      using "1.prems" True by (simp add: Set_wf)
    have bd: "sl_block a < length h" and kd: "sl_off a + nat i < length (h ! sl_block a)"
      using "1.prems" True by (auto simp: wf_view_def Len_def)
    have "\<exists>h'. Append_loop ?h1 res elems sLen resLen (i + 1) = Inr h' \<and> length h' = length ?h1
      \<and> (\<forall>b. length (h' ! b) = length (?h1 ! b))
      \<and> (\<forall>b k. b < length ?h1 \<longrightarrow> k < length (?h1 ! b) \<longrightarrow>
            h' ! b ! k =
              (if b = sl_block a \<and> sl_off a + nat (i + 1) \<le> k \<and> k < sl_off a + nat resLen
               then elems ! (k - sl_off a - nat sLen) else ?h1 ! b ! k))"
      using "1.prems" True
      by (intro "1.IH" [OF True g st]) (simp_all add: wf_view_poke)
    then obtain h' where h': "Append_loop ?h1 res elems sLen resLen (i + 1) = Inr h'"
      "length h' = length h" "\<forall>b. length (h' ! b) = length (h ! b)"
      "\<forall>b k. b < length h \<longrightarrow> k < length (h ! b) \<longrightarrow>
            h' ! b ! k =
              (if b = sl_block a \<and> sl_off a + nat (i + 1) \<le> k \<and> k < sl_off a + nat resLen
               then elems ! (k - sl_off a - nat sLen) else ?h1 ! b ! k)"
      by (auto simp: length_poke length_poke_block)
    have run: "Append_loop h res elems sLen resLen i = Inr h'"
      using True g st h'(1) by (subst Append_loop.simps) simp
    have pt: "h' ! b ! k =
              (if b = sl_block a \<and> sl_off a + nat i \<le> k \<and> k < sl_off a + nat resLen
               then elems ! (k - sl_off a - nat sLen) else h ! b ! k)"
      if "b < length h" "k < length (h ! b)" for b k
    proof (cases "b = sl_block a \<and> sl_off a + nat (i + 1) \<le> k \<and> k < sl_off a + nat resLen")
      case True
      have "h' ! b ! k = elems ! (k - sl_off a - nat sLen)"
        unfolding h'(4) [rule_format, OF that] by (rule if_P [OF True])
      then show ?thesis using True "1.prems"(5,6) by auto
    next
      case False
      then have "h' ! b ! k = ?h1 ! b ! k"
        unfolding h'(4) [rule_format, OF that] by (rule if_not_P)
      also have "\<dots> = (if b = sl_block a \<and> k = sl_off a + nat i then ?x else h ! b ! k)"
        using bd kd by (simp add: poke_nth)
      finally show ?thesis
        using False "1.prems"(5,6) \<open>i < resLen\<close> by (auto simp: nat_add_distrib nat_diff_distrib)
    qed
    show ?thesis using run h'(2,3) pt by blast
  qed
qed

lemma growSlice_loop_is_Copy_loop:
  "growSlice_loop h newS s i = Copy_loop h newS s (Len s) i"
proof (induction h newS s i rule: growSlice_loop.induct)
  case (1 h newS s i)
  show ?case
    by (subst growSlice_loop.simps, subst Copy_loop.simps)
       (auto simp: "1.IH" split: sum.splits)
qed


text \<open>
  C3. For every view \<open>v\<close> the package builds and every non-empty list of values with
  \<open>resultLen = v.Len() + K + 1 \<le> v.Cap()\<close>, \<open>Append\<close> returns \<open>v.Sliced(0, resultLen)\<close>:
  a header over \<open>v\<close>'s own block at \<open>v\<close>'s own offset, with \<open>v\<close>'s capacity. The store
  has as many blocks afterwards as before (nothing is allocated) and only \<open>v\<close>'s block is
  written; the cells \<open>v.Len(), ..., resultLen - 1\<close> after the shared offset hold the new
  values, which \<open>Get\<close> on the result returns, and the cells below \<open>v.Len()\<close> read as
  before through both views.
\<close>

theorem Append_within_capacity_aliases:
  assumes "wf_view h v" and "elems \<noteq> []" and "Len v + int (length elems) \<le> Cap v"
  shows "\<exists>res h' a. Append h v elems T = Some (Inr (res, h'))
           \<and> Sliced v [0, Len v + int (length elems)] = Inr res
           \<and> array v = Some a
           \<and> res = mkview (sl_block a) (sl_off a) (nat (Len v) + length elems) (sl_cap a)
           \<and> Len res = Len v + int (length elems) \<and> Cap res = Cap v
           \<and> length h' = length h
           \<and> (\<forall>b. b < length h \<and> b \<noteq> sl_block a \<longrightarrow> h' ! b = h ! b)
           \<and> (\<forall>i<length elems. h' ! sl_block a ! (sl_off a + nat (Len v) + i) = elems ! i)
           \<and> (\<forall>i<length elems. Get h' res (Len v + int i) = Inr (elems ! i))
           \<and> (\<forall>i. 0 \<le> i \<and> i < Len v \<longrightarrow> Get h' res i = Get h v i \<and> Get h' v i = Get h v i)"
proof -
  let ?n = "Len v + int (length elems)"
  have pos: "0 < int (length elems)" using assms(2) by simp
  obtain a where a: "array v = Some a"
    using assms(1,3) pos by (cases "array v") (auto simp: wf_view_def Len_def Cap_def)
  have lv: "Len v = int (sl_len a)" and cv: "Cap v = int (sl_cap a)" and c63: "Cap v < 2 ^ 63"
    and bd: "sl_block a < length h" and fit: "sl_off a + sl_cap a \<le> length (h ! sl_block a)"
    using assms(1) a by (simp_all add: wf_view_def Len_def Cap_def)
  define res where "res = mkview (sl_block a) (sl_off a) (nat (Len v) + length elems) (sl_cap a)"
  define a' where "a' = \<lparr>sl_block = sl_block a, sl_off = sl_off a,
                         sl_len = nat (Len v) + length elems, sl_cap = sl_cap a\<rparr>"
  have w: "wrap64 ?n = ?n"
    using lv c63 assms(3) by (intro wrap64_id) (simp add: int64_def)
  have "Sliced v [0, ?n, Cap v] = Inr (mkview (sl_block a) (sl_off a + nat 0) (nat (?n - 0)) (nat (Cap v - 0)))"
    using assms(1) a _ _ assms(3) by (rule Sliced_valid) (simp_all add: lv)
  then have sl: "Sliced v [0, ?n] = Inr res"
    by (simp add: Sliced_two res_def lv cv nat_add_distrib)
  have ar: "array res = Some a'" and lr: "Len res = ?n" and cr: "Cap res = Cap v"
    by (simp_all add: res_def a'_def mkview_sel lv cv)
  have wr: "wf_view h res"
    using assms(1) sl by (rule Sliced_wf)
  from Append_loop_writes [OF wr ar, of ?n "Len v" elems "Len v"]
  obtain h' where h': "Append_loop h res elems (Len v) ?n (Len v) = Inr h'"
      "length h' = length h" "\<forall>b. length (h' ! b) = length (h ! b)"
      "\<forall>b k. b < length h \<longrightarrow> k < length (h ! b) \<longrightarrow>
            h' ! b ! k =
              (if b = sl_block a \<and> sl_off a + nat (Len v) \<le> k \<and> k < sl_off a + nat ?n
               then elems ! (k - sl_off a - nat (Len v)) else h ! b ! k)"
    by (auto simp: lr lv a'_def)
  have run: "Append h v elems T = Some (Inr (res, h'))"
    using assms(3) sl h'(1) by (simp add: Append_def w)
  have other: "h' ! b = h ! b" if "b < length h" "b \<noteq> sl_block a" for b
    using h'(3) h'(4) [rule_format, OF that(1)] that(2) by (intro nth_equalityI) auto
  have new: "h' ! sl_block a ! (sl_off a + nat (Len v) + i) = elems ! i" if "i < length elems" for i
  proof -
    have "sl_off a + nat (Len v) + i < length (h ! sl_block a)"
      using that fit assms(3) lv cv by simp
    from h'(4) [rule_format, OF bd this] that show ?thesis
      by (simp add: lv nat_add_distrib)
  qed
  have wr': "wf_view h' res" and wv': "wf_view h' v"
    using h'(2,3) wr assms(1) by (auto intro: wf_view_shape)
  have newG: "Get h' res (Len v + int i) = Inr (elems ! i)" if "i < length elems" for i
  proof -
    have "Get h' res (Len v + int i) = Inr (h' ! sl_block a ! (sl_off a + nat (Len v + int i)))"
      using Get_wf [OF wr' ar, of "Len v + int i"] that by (simp add: lr lv a'_def)
    then show ?thesis using new [OF that] by (simp add: lv nat_add_distrib add.assoc)
  qed
  have old: "Get h' res i = Get h v i \<and> Get h' v i = Get h v i" if "0 \<le> i" "i < Len v" for i
  proof -
    have k: "sl_off a + nat i < length (h ! sl_block a)"
      using that fit assms(3) lv cv by simp
    have same: "h' ! sl_block a ! (sl_off a + nat i) = h ! sl_block a ! (sl_off a + nat i)"
      using h'(4) [rule_format, OF bd k] that by (auto simp: lv)
    have "Get h' res i = Inr (h' ! sl_block a ! (sl_off a + nat i))"
      using Get_wf [OF wr' ar, of i] that by (simp add: lr a'_def)
    moreover have "Get h' v i = Inr (h' ! sl_block a ! (sl_off a + nat i))"
      using Get_wf [OF wv' a that] .
    moreover have "Get h v i = Inr (h ! sl_block a ! (sl_off a + nat i))"
      using Get_wf [OF assms(1) a that] .
    ultimately show ?thesis using same by simp
  qed
  have "Append h v elems T = Some (Inr (res, h'))
           \<and> Sliced v [0, Len v + int (length elems)] = Inr res
           \<and> array v = Some a
           \<and> res = mkview (sl_block a) (sl_off a) (nat (Len v) + length elems) (sl_cap a)
           \<and> Len res = Len v + int (length elems) \<and> Cap res = Cap v
           \<and> length h' = length h
           \<and> (\<forall>b. b < length h \<and> b \<noteq> sl_block a \<longrightarrow> h' ! b = h ! b)
           \<and> (\<forall>i<length elems. h' ! sl_block a ! (sl_off a + nat (Len v) + i) = elems ! i)
           \<and> (\<forall>i<length elems. Get h' res (Len v + int i) = Inr (elems ! i))
           \<and> (\<forall>i. 0 \<le> i \<and> i < Len v \<longrightarrow> Get h' res i = Get h v i \<and> Get h' v i = Get h v i)"
    using run sl a lr cr h'(2) other new newG old res_def by (intro conjI allI impI) auto
  then show ?thesis by (intro exI)
qed


theorem Append_within_capacity_aliases_witness:
  "wf_view [[0, 0, 0, 0, 0::int]] (mkview 0 0 2 5) \<and> [7::int] \<noteq> []
   \<and> Len (mkview 0 0 2 5) + int (length [7::int]) \<le> Cap (mkview 0 0 2 5)
   \<and> (\<exists>res h'. Append [[0, 0, 0, 0, 0::int]] (mkview 0 0 2 5) [7] int_elem = Some (Inr (res, h'))
          \<and> Sliced (mkview 0 0 2 5) [0, 3] = Inr res \<and> Len res = 3 \<and> Cap res = 5
          \<and> length h' = 1 \<and> Get h' res 2 = Inr 7)"
proof -
  let ?h = "[[0, 0, 0, 0, 0::int]]" and ?v = "mkview 0 0 2 5"
  have wf: "wf_view ?h ?v" by (simp add: wf_view_mkview)
  have ne: "[7::int] \<noteq> []" by simp
  have le: "Len ?v + int (length [7::int]) \<le> Cap ?v" by (simp add: mkview_sel)
  from Append_within_capacity_aliases [OF wf ne le, of int_elem]
  obtain res h' where r: "Append ?h ?v [7] int_elem = Some (Inr (res, h'))"
      "Sliced ?v [0, Len ?v + int (length [7::int])] = Inr res"
      "Len res = Len ?v + int (length [7::int])" "Cap res = Cap ?v" "length h' = length ?h"
      "\<forall>i<length [7::int]. Get h' res (Len ?v + int i) = Inr ([7] ! i)"
    by blast
  from r(6) have "Get h' res (Len ?v + int 0) = Inr ([7] ! 0)" by simp
  then have "Get h' res 2 = Inr 7" by (simp add: mkview_sel)
  moreover have "Sliced ?v [0, 3] = Inr res" "Len res = 3" "Cap res = 5" "length h' = 1"
    using r(2-5) by (simp_all add: mkview_sel)
  ultimately show ?thesis using wf ne le r(1) by blast
qed


lemma growSlice_copies:
  assumes "wf_view h v" and "0 \<le> n" and "Len v \<le> n" and "n \<le> c" and "c < 2 ^ 63"
    and "nextSliceCapacity n (Cap v) = Some c" and "c \<le> max_cap T"
  shows "\<exists>h'. growSlice h v n T = Some (Inr (mkview (length h) 0 (nat n) (nat c), h'))
           \<and> length h' = length h + 1 \<and> length (h' ! length h) = nat c
           \<and> (\<forall>b<length h. h' ! b = h ! b)
           \<and> (\<forall>a k. array v = Some a \<and> k < nat (Len v) \<longrightarrow>
                 h' ! length h ! k = h ! sl_block a ! (sl_off a + k))"
proof -
  let ?newS = "mkview (length h) 0 (nat n) (nat c)"
  let ?h1 = "h @ [replicate (nat c) (zero_value T)]"
  have mk: "Make h [n, c] T = Inr (?newS, ?h1)"
    using assms(2,4,7) by (rule Make_mkview)
  have wn: "wf_view ?h1 ?newS"
    using assms(2,4,5) by (simp add: wf_view_mkview)
  have wv: "wf_view ?h1 v"
    using assms(1) by (rule wf_view_alloc)
  have old1: "?h1 ! b = h ! b" if "b < length h" for b
    using that by (simp add: nth_append)
  show ?thesis
  proof (cases "array v")
    case None
    then have "Len v = 0" using assms(1) by (simp add: wf_view_def Len_def)
    then have "growSlice_loop ?h1 ?newS v 0 = Inr ?h1"
      by (subst growSlice_loop.simps) simp
    then have "growSlice h v n T = Some (Inr (?newS, ?h1))"
      using assms(6) mk by (simp add: growSlice_def)
    then show ?thesis using None old1 by simp
  next
    case (Some a)
    have bv: "sl_block a < length h" and lv: "Len v = int (sl_len a)"
      and fit: "sl_off a + sl_cap a \<le> length (h ! sl_block a)" and lc: "sl_len a \<le> sl_cap a"
      using assms(1) Some by (simp_all add: wf_view_def Len_def)
    have an: "array ?newS = Some \<lparr>sl_block = length h, sl_off = 0, sl_len = nat n, sl_cap = nat c\<rparr>"
      by (simp add: mkview_sel)
    have "\<exists>h'. Copy_loop ?h1 ?newS v (Len v) 0 = Inr h' \<and> length h' = length ?h1
      \<and> (\<forall>b. length (h' ! b) = length (?h1 ! b))
      \<and> (\<forall>b k. b < length ?h1 \<longrightarrow> k < length (?h1 ! b) \<longrightarrow>
            h' ! b ! k =
              (if b = sl_block \<lparr>sl_block = length h, sl_off = 0, sl_len = nat n, sl_cap = nat c\<rparr>
                  \<and> sl_off \<lparr>sl_block = length h, sl_off = 0, sl_len = nat n, sl_cap = nat c\<rparr> + nat 0 \<le> k
                  \<and> k < sl_off \<lparr>sl_block = length h, sl_off = 0, sl_len = nat n, sl_cap = nat c\<rparr> + nat (Len v)
               then ?h1 ! sl_block a ! (sl_off a + (k - sl_off \<lparr>sl_block = length h, sl_off = 0, sl_len = nat n, sl_cap = nat c\<rparr>))
               else ?h1 ! b ! k))"
      using wn wv an Some
    proof (rule Copy_loop_forward)
      show "Len v \<le> Len ?newS" using assms(2,3) by (simp add: mkview_sel)
      show "Len v \<le> Len v" "(0::int) \<le> 0" by simp_all
      show "0 \<le> Len v" using lv by simp
      show "sl_block \<lparr>sl_block = length h, sl_off = 0, sl_len = nat n, sl_cap = nat c\<rparr> \<noteq> sl_block a
            \<or> sl_off \<lparr>sl_block = length h, sl_off = 0, sl_len = nat n, sl_cap = nat c\<rparr> \<le> sl_off a
            \<or> sl_off a + nat (Len v) \<le> sl_off \<lparr>sl_block = length h, sl_off = 0, sl_len = nat n, sl_cap = nat c\<rparr>"
        using bv by simp
    qed
    then obtain h' where h': "Copy_loop ?h1 ?newS v (Len v) 0 = Inr h'"
        "length h' = length h + 1" "\<forall>b. length (h' ! b) = length (?h1 ! b)"
        "\<forall>b k. b < length ?h1 \<longrightarrow> k < length (?h1 ! b) \<longrightarrow>
            h' ! b ! k = (if b = length h \<and> k < nat (Len v)
                          then ?h1 ! sl_block a ! (sl_off a + k) else ?h1 ! b ! k)"
      by auto
    have run: "growSlice h v n T = Some (Inr (?newS, h'))"
      using assms(6) mk h'(1) by (simp add: growSlice_def growSlice_loop_is_Copy_loop)
    have lenb: "length (h' ! length h) = nat c"
      using h'(3) by simp
    have old: "h' ! b = h ! b" if "b < length h" for b
    proof (rule nth_equalityI)
      show "length (h' ! b) = length (h ! b)"
        using h'(3) old1 [OF that] by simp
      fix k assume "k < length (h' ! b)"
      then have "k < length (?h1 ! b)" using h'(3) by simp
      moreover have "b < length ?h1" using that by simp
      ultimately have "h' ! b ! k = ?h1 ! b ! k"
        using h'(4) that by simp
      then show "h' ! b ! k = h ! b ! k" using old1 [OF that] by simp
    qed
    have cp: "h' ! length h ! k = h ! sl_block a ! (sl_off a + k)" if "k < nat (Len v)" for k
    proof -
      have "k < length (?h1 ! length h)" using that assms(3,4) by simp
      moreover have "length h < length ?h1" by simp
      ultimately have "h' ! length h ! k = ?h1 ! sl_block a ! (sl_off a + k)"
        using h'(4) that by simp
      then show ?thesis using old1 [OF bv] by simp
    qed
    show ?thesis using run h'(2) lenb old cp Some by auto
  qed
qed


lemma wf_view_bounds:
  "wf_view h v \<Longrightarrow> 0 \<le> Len v \<and> Len v \<le> Cap v \<and> Cap v < 2 ^ 63"
  by (auto simp: wf_view_def Len_def Cap_def split: option.splits)









lemma Append_nil_view_examples:
  "Append h nilSlice [] T = Some (Inl NilDereference)"
  "Append h nilSlice [x] T =
     (if 1 \<le> max_cap T then Some (Inr (mkview (length h) 0 1 1, h @ [[x]]))
      else Some (Inl (MakesliceOutOfRange ''makeslice: len out of range'')))"
proof -
  show "Append h nilSlice [] T = Some (Inl NilDereference)"
    by (simp add: Append_def nilSlice_def Len_def Cap_def wrap64_def Sliced_def
          extractSlicedIndexes_def)
  have n: "nextSliceCapacity 1 0 = Some 1"
    by (simp add: nextSliceCapacity_def wrap64_def)
  have w: "wrap64 1 = 1" "Len nilSlice = 0" "Cap nilSlice = 0"
    by (simp_all add: nilSlice_def Len_def Cap_def wrap64_def)
  show "Append h nilSlice [x] T =
     (if 1 \<le> max_cap T then Some (Inr (mkview (length h) 0 1 1, h @ [[x]]))
      else Some (Inl (MakesliceOutOfRange ''makeslice: len out of range'')))"
  proof (cases "1 \<le> max_cap T")
    case True
    have g: "growSlice h nilSlice 1 T
               = Some (Inr (mkview (length h) 0 1 1, h @ [[zero_value T]]))"
      using True
      by (simp add: growSlice_def w n Make_mkview growSlice_loop.simps)
    have l: "Append_loop (h @ [[zero_value T]]) (mkview (length h) 0 1 1) [x] 0 1 0
               = Inr (h @ [[x]])"
      by (simp add: Append_loop.simps go_index_def Set_def go_store_def poke_def mkview_def)
    show ?thesis
      using True g l by (simp add: Append_def w)
  next
    case False
    then have "Make h [1, 1] T = Inl (MakesliceOutOfRange ''makeslice: len out of range'')"
      using Make_beyond_limit [of 1 1 T h] by simp
    then show ?thesis
      using False by (simp add: Append_def w growSlice_def n)
  qed
qed

lemma Append_Inr_bounds:
  assumes "Append h s elems T = Some (Inr (v, h'))"
  shows "0 \<le> Len v \<and> Len v \<le> Cap v \<and> \<not> IsNil v"
proof (cases "wrap64 (Len s + int (length elems)) \<le> Cap s")
  case True
  with assms obtain r where "Sliced s [0, wrap64 (Len s + int (length elems))] = Inr v"
    by (auto simp: Append_def Let_def split: sum.splits)
  then show ?thesis by (rule Sliced_Inr_bounds)
next
  case False
  with assms obtain h1 where "growSlice h s (wrap64 (Len s + int (length elems))) T = Some (Inr (v, h1))"
    by (auto simp: Append_def Let_def split: sum.splits option.splits)
  then obtain c h0 where "Make h [wrap64 (Len s + int (length elems)), c] T = Inr (v, h0)"
    by (auto simp: growSlice_def split: option.splits sum.splits)
  from Make_Inr [OF this] show ?thesis
    by (auto simp: Len_def Cap_def IsNil_def)
qed

lemma New_Inr_bounds:
  assumes "New h elems T = Inr (v, h')"
  shows "0 \<le> Len v \<and> Len v \<le> Cap v \<and> \<not> IsNil v"
proof -
  from assms obtain h0 where "Make h [int (length elems)] T = Inr (v, h0)"
    by (auto simp: New_def split: sum.splits)
  from Make_Inr [OF this] show ?thesis
    by (auto simp: Len_def Cap_def IsNil_def)
qed

lemma Append_example_within:
  "Append [[0, 0, 0, 0, 0::int]] (mkview 0 0 2 5) [7] int_elem = Some (Inr (mkview 0 0 3 5, [[0, 0, 7, 0, 0]]))"
  by (simp add: Append_def mkview_def Len_def Cap_def wrap64_def Sliced_def
        extractSlicedIndexes_def go_reslice_def Append_loop.simps go_index_def Set_def
        go_store_def poke_def numeral_eq_Suc)


lemma Append_nothing_with_buffer:
  assumes "wf_view h v" "array v = Some a"
  shows "Append h v [] T = Some (Inr (mkview (sl_block a) (sl_off a) (sl_len a) (sl_cap a), h))"
proof -
  have lv: "Len v = int (sl_len a)" and cv: "Cap v = int (sl_cap a)" and le: "Len v \<le> Cap v"
    and c63: "Cap v < 2 ^ 63"
    using assms by (simp_all add: wf_view_def Len_def Cap_def)
  have w: "wrap64 (Len v) = Len v"
    using lv le c63 by (intro wrap64_id) (simp add: int64_def)
  have "Sliced v [0, Len v, Cap v] =
          Inr (mkview (sl_block a) (sl_off a + nat 0) (nat (Len v - 0)) (nat (Cap v - 0)))"
    using assms _ _ le by (rule Sliced_valid) (simp_all add: lv)
  then have "Sliced v [0, Len v] = Inr (mkview (sl_block a) (sl_off a) (sl_len a) (sl_cap a))"
    by (simp add: Sliced_two lv cv)
  then show ?thesis
    using le by (simp add: Append_def w Append_loop.simps)
qed

text \<open>
  \<open>Append\<close> returns, with the length the sum of the two, for every view with a backing
  buffer and for the nil view with at least one value (lengths being 64-bit values, and
  the grown capacity one the native \<^verbatim>\<open>make\<close> allocates).
\<close>

lemma Append_returns:
  assumes "wf_view h v" and "array v \<noteq> None \<or> elems \<noteq> []"
    and "Len v + int (length elems) < 2 ^ 63"
    and lim: "\<And>c. nextSliceCapacity (Len v + int (length elems)) (Cap v) = Some c
                \<Longrightarrow> c \<le> max_cap T"
  shows "\<exists>res h'. Append h v elems T = Some (Inr (res, h'))
           \<and> Len res = Len v + int (length elems)"
proof -
  let ?n = "Len v + int (length elems)"
  note bv = wf_view_bounds [OF assms(1)]
  have n0: "0 \<le> ?n" and ln: "Len v \<le> ?n" using bv by simp_all
  have w: "wrap64 ?n = ?n"
    using n0 assms(3) by (intro wrap64_id) (simp add: int64_def)
  show ?thesis
  proof (cases "?n \<le> Cap v")
    case True
    have "array v \<noteq> None"
    proof
      assume "array v = None"
      then have "Cap v = 0" "Len v = 0"
        using assms(1) by (simp_all add: wf_view_def Cap_def Len_def)
      with True assms(2) \<open>array v = None\<close> show False by simp
    qed
    then obtain a where a: "array v = Some a" by auto
    let ?res = "mkview (sl_block a) (sl_off a + nat 0) (nat (?n - 0)) (nat (Cap v - 0))"
    have "Sliced v [0, ?n, Cap v] = Inr ?res"
      using assms(1) a _ n0 True by (rule Sliced_valid) simp_all
    then have sl: "Sliced v [0, ?n] = Inr ?res"
      by (simp add: Sliced_two)
    have wr: "wf_view h ?res"
      using assms(1) sl by (rule Sliced_wf)
    have lr: "Len ?res = ?n" using n0 by (simp add: mkview_sel)
    from Append_loop_writes [OF wr mkview_sel(3), of ?n "Len v" elems "Len v"]
    obtain h' where "Append_loop h ?res elems (Len v) ?n (Len v) = Inr h'"
      using bv lr by auto
    then have "Append h v elems T = Some (Inr (?res, h'))"
      using True sl by (simp add: Append_def w)
    then show ?thesis using lr by blast
  next
    case False
    have c0: "0 \<le> Cap v" using bv by simp
    obtain c where c: "nextSliceCapacity ?n (Cap v) = Some c" "?n \<le> c" "c < 2 ^ 63"
      using nextSliceCapacity_returns [OF n0 assms(3) c0] bv by blast
    let ?res = "mkview (length h) 0 (nat ?n) (nat c)"
    from growSlice_copies [OF assms(1) n0 ln c(2,3) c(1) lim [OF c(1)]]
    obtain h1 where h1: "growSlice h v ?n T = Some (Inr (?res, h1))"
        "length h1 = length h + 1" "length (h1 ! length h) = nat c"
      by blast
    have wr: "wf_view h1 ?res"
      using h1(2,3) c(2,3) n0 by (simp add: wf_view_mkview)
    have lr: "Len ?res = ?n" using n0 by (simp add: mkview_sel)
    from Append_loop_writes [OF wr mkview_sel(3), of ?n "Len v" elems "Len v"]
    obtain h' where "Append_loop h1 ?res elems (Len v) ?n (Len v) = Inr h'"
      using bv lr by auto
    then have "Append h v elems T = Some (Inr (?res, h'))"
      using False h1(1) by (simp add: Append_def w)
    then show ?thesis using lr by blast
  qed
qed

text \<open>
  C6. \<open>Append\<close> is meant never to fail, the nil view included. With no value to append,
  the zero-value view takes the branch \<open>resLen \<le> s.Cap()\<close> (\<open>0 \<le> 0\<close>), and
  \<open>s.Sliced(0, 0)\<close> dereferences the nil \<^verbatim>\<open>array\<close> pointer: the call panics. With one
  value the same view takes the growth branch and the call returns, unless the element
  type is one the native \<^verbatim>\<open>make\<close> allocates no element of; \<open>Append_returns\<close>
  covers every other input.
\<close>

theorem Append_nil_view_no_values_panics:
  "IsNil nilSlice \<and> Len nilSlice = 0 \<and> Cap nilSlice = 0
   \<and> Append h nilSlice [] T = Some (Inl NilDereference)
   \<and> Append h nilSlice [x] T =
       (if 1 \<le> max_cap T then Some (Inr (mkview (length h) 0 1 1, h @ [[x]]))
        else Some (Inl (MakesliceOutOfRange ''makeslice: len out of range'')))"
  by (simp add: Append_nil_view_examples) (simp add: nilSlice_def IsNil_def Len_def Cap_def)

subsection \<open>The length never exceeds the capacity\<close>

text \<open>
  C10. The zero-value view has length and capacity 0, and every view that \<open>Make\<close>,
  \<open>New\<close>, \<open>Sliced\<close> or \<open>Append\<close> returns has \<open>0 \<le> Len() \<le> Cap()\<close>, whatever view and
  arguments the call was given.
\<close>

theorem views_length_within_capacity:
  "Len nilSlice = 0 \<and> Cap nilSlice = 0
   \<and> (Make h sizes T = Inr (v, h') \<longrightarrow> 0 \<le> Len v \<and> Len v \<le> Cap v)
   \<and> (New h elems T = Inr (v, h') \<longrightarrow> 0 \<le> Len v \<and> Len v \<le> Cap v)
   \<and> (Sliced s idx = Inr v \<longrightarrow> 0 \<le> Len v \<and> Len v \<le> Cap v)
   \<and> (Append h s elems T = Some (Inr (v, h')) \<longrightarrow> 0 \<le> Len v \<and> Len v \<le> Cap v)"
proof (intro conjI impI)
  show "Len nilSlice = 0" "Cap nilSlice = 0"
    by (simp_all add: nilSlice_def Len_def Cap_def)
  show "0 \<le> Len v" "Len v \<le> Cap v" if "Make h sizes T = Inr (v, h')"
    using Make_Inr [OF that] by (auto simp: Len_def Cap_def)
  show "0 \<le> Len v" "Len v \<le> Cap v" if "New h elems T = Inr (v, h')"
    using New_Inr_bounds [OF that] by simp_all
  show "0 \<le> Len v" "Len v \<le> Cap v" if "Sliced s idx = Inr v"
    using Sliced_Inr_bounds [OF that] by simp_all
  show "0 \<le> Len v" "Len v \<le> Cap v" if "Append h s elems T = Some (Inr (v, h'))"
    using Append_Inr_bounds [OF that] by simp_all
qed

theorem views_length_within_capacity_witness:
  "Make [] [2, 5] int_elem = Inr (mkview 0 0 2 5, [[0, 0, 0, 0, 0]])
   \<and> 0 \<le> Len (mkview 0 0 2 5) \<and> Len (mkview 0 0 2 5) \<le> Cap (mkview 0 0 2 5)
   \<and> New [] [1, 2, 3, 4, 5] int_elem = Inr (mkview 0 0 5 5, [[1, 2, 3, 4, 5]])
   \<and> 0 \<le> Len (mkview 0 0 5 5) \<and> Len (mkview 0 0 5 5) \<le> Cap (mkview 0 0 5 5)
   \<and> Sliced (mkview 0 0 5 5) [1, 3] = Inr (mkview 0 1 2 4)
   \<and> 0 \<le> Len (mkview 0 1 2 4) \<and> Len (mkview 0 1 2 4) \<le> Cap (mkview 0 1 2 4)
   \<and> Append [[0, 0, 0, 0, 0::int]] (mkview 0 0 2 5) [7] int_elem
        = Some (Inr (mkview 0 0 3 5, [[0, 0, 7, 0, 0]]))
   \<and> 0 \<le> Len (mkview 0 0 3 5) \<and> Len (mkview 0 0 3 5) \<le> Cap (mkview 0 0 3 5)"
proof -
  have m: "Make [] [2, 5] int_elem = Inr (mkview 0 0 2 5, [[0, 0, 0, 0, 0]])"
    by (simp add: Make_mkview numeral_eq_Suc)
  have n: "New [] [1, 2, 3, 4, 5] int_elem = Inr (mkview 0 0 5 5, [[1, 2, 3, 4, 5]])"
    by (rule New_example)
  have s: "Sliced (mkview 0 0 5 5) [1, 3] = Inr (mkview 0 1 2 4)"
    by (simp add: Sliced_def extractSlicedIndexes_def go_reslice_def mkview_def Cap_def)
  have a: "Append [[0, 0, 0, 0, 0::int]] (mkview 0 0 2 5) [7] int_elem
        = Some (Inr (mkview 0 0 3 5, [[0, 0, 7, 0, 0]]))"
    by (rule Append_example_within)
  have "0 \<le> Len (mkview 0 0 2 5) \<and> Len (mkview 0 0 2 5) \<le> Cap (mkview 0 0 2 5)"
    using views_length_within_capacity
      [where h = "[]" and sizes = "[2, 5]" and T = int_elem and v = "mkview 0 0 2 5"
         and h' = "[[0, 0, 0, 0, 0]]" and elems = "[]" and s = nilSlice and idx = "[]"] m
    by blast
  moreover have "0 \<le> Len (mkview 0 0 5 5) \<and> Len (mkview 0 0 5 5) \<le> Cap (mkview 0 0 5 5)"
    using views_length_within_capacity
      [where h = "[]" and elems = "[1, 2, 3, 4, 5]" and T = int_elem and v = "mkview 0 0 5 5"
         and h' = "[[1, 2, 3, 4, 5]]" and sizes = "[]" and s = nilSlice and idx = "[]"] n
    by blast
  moreover have "0 \<le> Len (mkview 0 1 2 4) \<and> Len (mkview 0 1 2 4) \<le> Cap (mkview 0 1 2 4)"
    using views_length_within_capacity
      [where s = "mkview 0 0 5 5" and idx = "[1, 3]" and v = "mkview 0 1 2 4"
         and h = "[[1, 2, 3, 4, 5::int]]" and h' = "[]" and T = int_elem and sizes = "[]"
         and elems = "[]"] s
    by blast
  moreover have "0 \<le> Len (mkview 0 0 3 5) \<and> Len (mkview 0 0 3 5) \<le> Cap (mkview 0 0 3 5)"
    using views_length_within_capacity
      [where h = "[[0, 0, 0, 0, 0::int]]" and s = "mkview 0 0 2 5" and elems = "[7]"
         and T = int_elem and v = "mkview 0 0 3 5" and h' = "[[0, 0, 7, 0, 0]]" and sizes = "[]"
         and idx = "[]"] a
    by blast
  ultimately show ?thesis using m n s a by blast
qed

subsection \<open>Every view the package returns is well-formed\<close>

text \<open>
  The hypothesis \<open>wf_view\<close> of the theorems above is an invariant of the package: the
  zero value satisfies it, each of \<open>Make\<close>, \<open>New\<close>, \<open>Sliced\<close> and \<open>Append\<close> returns a
  view that satisfies it in the store it leaves, and no operation breaks it for a view
  built earlier. (For \<open>Make\<close> and \<open>New\<close> the sizes are Go \<^verbatim>\<open>int\<close>s, hence below
  \<open>2 ^ 63\<close>.)
\<close>

lemma same_shape_refl: "same_shape h h"
  by (simp add: same_shape_def)

lemma same_shape_trans: "same_shape h h1 \<Longrightarrow> same_shape h1 h2 \<Longrightarrow> same_shape h h2"
  by (simp add: same_shape_def)

lemma same_shape_wf: "same_shape h h' \<Longrightarrow> wf_view h t \<Longrightarrow> wf_view h' t"
  unfolding same_shape_def by (blast intro: wf_view_shape)

lemma Set_same_shape: "Set h s i x = Inr h' \<Longrightarrow> same_shape h h'"
  by (auto simp: same_shape_def length_poke length_poke_block dest!: Set_Inr_poke)

lemma New_loop_same_shape: "New_loop h s elems i = Inr h' \<Longrightarrow> same_shape h h'"
proof (induction h s elems i rule: New_loop.induct)
  case (1 h s elems i)
  from "1.prems" show ?case
    by (subst (asm) New_loop.simps)
       (auto simp: same_shape_refl split: if_splits sum.splits
             intro: same_shape_trans [OF Set_same_shape "1.IH"])
qed

lemma Copy_loop_same_shape: "Copy_loop h dst src n i = Inr h' \<Longrightarrow> same_shape h h'"
proof (induction h dst src n i rule: Copy_loop.induct)
  case (1 h dst src n i)
  from "1.prems" show ?case
    by (subst (asm) Copy_loop.simps)
       (auto simp: same_shape_refl split: if_splits sum.splits
             intro: same_shape_trans [OF Set_same_shape "1.IH"])
qed

lemma Append_loop_same_shape:
  "Append_loop h res elems sLen resLen i = Inr h' \<Longrightarrow> same_shape h h'"
proof (induction h res elems sLen resLen i rule: Append_loop.induct)
  case (1 h res elems sLen resLen i)
  from "1.prems" show ?case
    by (subst (asm) Append_loop.simps)
       (auto simp: same_shape_refl split: if_splits sum.splits
             intro: same_shape_trans [OF Set_same_shape "1.IH"])
qed

lemma Make_Inr_fields:
  "Make h [len, cap] T = Inr (v, h') \<Longrightarrow> Len v = len \<and> Cap v = cap"
  "Make h [len] T = Inr (v, h') \<Longrightarrow> Len v = len \<and> Cap v = len"
  by (auto simp: Make_def extractMakeIndexes_def go_make_def Len_def Cap_def Let_def
           split: if_splits)

lemma wf_view_nilSlice: "wf_view h nilSlice"
  by (simp add: wf_view_def nilSlice_def)

lemma Make_wf:
  assumes "Make h sizes T = Inr (v, h')" "Cap v < 2 ^ 63"
  shows "wf_view h' v" and "wf_view h t \<Longrightarrow> wf_view h' t"
proof -
  from Make_Inr [OF assms(1)] obtain len cap where
    m: "0 \<le> len" "len \<le> cap" "v = mkview (length h) 0 (nat len) (nat cap)"
       "h' = h @ [replicate (nat cap) (zero_value T)]"
    by (auto simp: mkview_def)
  show "wf_view h' v"
    using m assms(2) by (simp add: wf_view_mkview mkview_sel)
  show "wf_view h t \<Longrightarrow> wf_view h' t"
    unfolding m(4) by (rule wf_view_alloc)
qed

lemma New_wf:
  assumes "New h elems T = Inr (v, h')" "int (length elems) < 2 ^ 63"
  shows "wf_view h' v" and "wf_view h t \<Longrightarrow> wf_view h' t"
proof -
  from assms(1) obtain h0 where m: "Make h [int (length elems)] T = Inr (v, h0)"
    and l: "New_loop h0 v elems 0 = Inr h'"
    by (auto simp: New_def split: sum.splits)
  from Make_Inr_fields(2) [OF m] have "Cap v < 2 ^ 63"
    using assms(2) by simp
  note w = Make_wf [OF m this]
  show "wf_view h' v"
    using New_loop_same_shape [OF l] w(1) by (rule same_shape_wf)
  show "wf_view h t \<Longrightarrow> wf_view h' t"
    using New_loop_same_shape [OF l] w(2) by (rule same_shape_wf)
qed

lemma Copy_wf:
  assumes "Copy h dst src = Inr (n, h')" "wf_view h t"
  shows "wf_view h' t"
proof -
  from assms(1) obtain m where "Copy_loop h dst src m 0 = Inr h'"
    by (auto simp: Copy_def Let_def split: sum.splits)
  from Copy_loop_same_shape [OF this] assms(2) show ?thesis by (rule same_shape_wf)
qed

lemma Append_wf:
  assumes "wf_view h v" "Append h v elems T = Some (Inr (res, h'))"
  shows "wf_view h' res" and "wf_view h t \<Longrightarrow> wf_view h' t"
proof -
  let ?n = "wrap64 (Len v + int (length elems))"
  have "wf_view h' res \<and> (wf_view h t \<longrightarrow> wf_view h' t)"
  proof (cases "?n \<le> Cap v")
    case True
    with assms(2) have s: "Sliced v [0, ?n] = Inr res"
      and l: "Append_loop h res elems (Len v) ?n (Len v) = Inr h'"
      by (auto simp: Append_def Let_def split: sum.splits)
    show ?thesis
      using Append_loop_same_shape [OF l] Sliced_wf [OF assms(1) s]
      by (blast intro: same_shape_wf)
  next
    case False
    with assms(2) obtain h1 where g: "growSlice h v ?n T = Some (Inr (res, h1))"
      and l: "Append_loop h1 res elems (Len v) ?n (Len v) = Inr h'"
      by (auto simp: Append_def Let_def split: sum.splits option.splits)
    from g obtain c h0 where c: "nextSliceCapacity ?n (Cap v) = Some c"
      and m: "Make h [?n, c] T = Inr (res, h0)"
      and gl: "growSlice_loop h0 res v 0 = Inr h1"
      by (auto simp: growSlice_def split: option.splits sum.splits)
    note bv = wf_view_bounds [OF assms(1)]
    have n: "0 \<le> ?n" "?n < 2 ^ 63"
      using False bv int64_wrap64 [of "Len v + int (length elems)"] by (simp_all add: int64_def)
    have "0 \<le> Cap v" "Cap v < 2 ^ 63" using bv by simp_all
    from nextSliceCapacity_returns [OF n this] c have "c < 2 ^ 63"
      by auto
    moreover from Make_Inr_fields(1) [OF m] have "Cap res = c"
      by simp
    ultimately have "Cap res < 2 ^ 63" by simp
    note w = Make_wf [OF m this]
    have sh: "same_shape h0 h'"
      using gl Append_loop_same_shape [OF l]
      by (auto simp: growSlice_loop_is_Copy_loop intro: same_shape_trans dest: Copy_loop_same_shape)
    show ?thesis
      using sh w by (blast intro: same_shape_wf)
  qed
  then show "wf_view h' res" and "wf_view h t \<Longrightarrow> wf_view h' t" by simp_all
qed

end
